theory Spec2Isabelle
  imports Main "HOL-Library.AList"
begin

section \<open>The marshmallow plugin of apispec: data model\<close>

text \<open>
  The module \<^verbatim>\<open>apispec/ext/marshmallow/__init__.py\<close> works on Python objects: schema
  classes, schema instances, names of schema classes, and literal descriptor dictionaries.

  A Python class is identified by its identity and carries a \<^verbatim>\<open>__name__\<close>. Two kinds of
  classes occur: the classes of builtin values (\<^verbatim>\<open>str\<close>, \<^verbatim>\<open>int\<close>, ...), which are what
  \<^verbatim>\<open>type(x)\<close> returns for a value that is no schema, and subclasses of
  \<^verbatim>\<open>marshmallow.Schema\<close>.
\<close>

datatype pyclass =
    Builtin string
  | SchemaClass nat string

fun cls_name :: "pyclass \<Rightarrow> string" where
  "cls_name (Builtin n) = n"
| "cls_name (SchemaClass i n) = n"

fun is_schema_class :: "pyclass \<Rightarrow> bool" where
  "is_schema_class (SchemaClass i n) = True"
| "is_schema_class (Builtin n) = False"

type_synonym addr = nat

text \<open>
  A marshmallow field, as far as the plugin looks at it: \<^verbatim>\<open>fields.Nested\<close> with the
  schema instance its \<^verbatim>\<open>schema\<close> attribute gives (an object of the store),
  \<^verbatim>\<open>fields.List\<close> with its \<^verbatim>\<open>container\<close> field, and any other field.
\<close>

datatype mm_field =
    Plain
  | Nested addr
  | List_field mm_field

fun is_Nested :: "mm_field \<Rightarrow> bool" where
  "is_Nested (Nested b) = True"
| "is_Nested f = False"

text \<open>
  A schema instance is a mutable object, so it lives in a store and is referred to by its
  address. \<open>exclude\<close> and \<open>only\<close> are the instance's collections in their iteration
  order; the empty list stands for every false-y value of the attribute (\<^verbatim>\<open>()\<close>,
  \<^verbatim>\<open>None\<close>, a missing attribute).
\<close>

record schema_obj =
  obj_class :: pyclass
  exclude :: "string list"
  only :: "string list"
  many :: bool
  obj_fields :: "(string \<times> mm_field) list"

text \<open>
  Values found in operation metadata and in descriptors. A dictionary is an association
  list in insertion order; its keys are strings or integers (status codes).
\<close>

datatype dkey = SKey string | IKey int

datatype pyval =
    VNone
  | VBool bool
  | VInt int
  | VStr string
  | VClass pyclass
  | VObj addr
  | VList "pyval list"
  | VDict "(dkey \<times> pyval) list"

text \<open>
  The identity key of a schema: a class, or a synthesized name. Keys of the two kinds are
  never equal, as a Python class never equals a string. \<open>KObj\<close> is a schema instance used
  as a dictionary key (by identity); only the fallback of \<^verbatim>\<open>resolve_schema_dict\<close> for a
  false-y key could produce it.
\<close>

datatype key = KClass pyclass | KName string | KObj addr

fun key_truthy :: "key \<Rightarrow> bool" where
  "key_truthy (KClass c) = True"
| "key_truthy (KName s) = (s \<noteq> [])"
| "key_truthy (KObj a) = True"

text \<open>\<^verbatim>\<open>type(x)\<close> for a value that is not itself a class.\<close>

fun py_type :: "(addr \<Rightarrow> schema_obj) \<Rightarrow> pyval \<Rightarrow> pyclass" where
  "py_type h VNone = Builtin ''NoneType''"
| "py_type h (VBool b) = Builtin ''bool''"
| "py_type h (VInt i) = Builtin ''int''"
| "py_type h (VStr s) = Builtin ''str''"
| "py_type h (VClass c) = Builtin ''type''"
| "py_type h (VObj a) = obj_class (h a)"
| "py_type h (VList xs) = Builtin ''list''"
| "py_type h (VDict kvs) = Builtin ''dict''"

text \<open>\<^verbatim>\<open>getattr(schema, 'exclude', None)\<close> and the same for \<^verbatim>\<open>only\<close> and \<^verbatim>\<open>many\<close>:
  only a schema instance has the attribute.\<close>

fun getattr_exclude :: "(addr \<Rightarrow> schema_obj) \<Rightarrow> pyval \<Rightarrow> string list" where
  "getattr_exclude h (VObj a) = exclude (h a)"
| "getattr_exclude h v = []"

fun getattr_only :: "(addr \<Rightarrow> schema_obj) \<Rightarrow> pyval \<Rightarrow> string list" where
  "getattr_only h (VObj a) = only (h a)"
| "getattr_only h v = []"

fun getattr_many :: "(addr \<Rightarrow> schema_obj) \<Rightarrow> pyval \<Rightarrow> bool" where
  "getattr_many h (VObj a) = many (h a)"
| "getattr_many h v = False"

section \<open>The identity key: get_schema_ref\<close>

text \<open>The loop \<^verbatim>\<open>for elem in xs: class_name += '_'; class_name += elem\<close>.\<close>

fun add_elems :: "string \<Rightarrow> string list \<Rightarrow> string" where
  "add_elems class_name [] = class_name"
| "add_elems class_name (elem # rest) = add_elems ((class_name @ ''_'') @ elem) rest"

definition get_schema_ref :: "(addr \<Rightarrow> schema_obj) \<Rightarrow> pyval \<Rightarrow> key" where
  "get_schema_ref h schema =
     (case schema of
        VClass c \<Rightarrow> KClass c
      | _ \<Rightarrow>
         (let parent_schema = py_type h schema;
              ex = getattr_exclude h schema;
              on = getattr_only h schema;
              class_name0 = [];
              class_name1 = (if ex \<noteq> [] then add_elems (class_name0 @ ''Without'') ex
                             else class_name0);
              class_name2 = (if on \<noteq> [] then add_elems (class_name1 @ ''Only'') on
                             else class_name1)
          in if class_name2 \<noteq> [] then KName (cls_name parent_schema @ class_name2)
             else KClass (py_type h schema)))"

text \<open>The suffix that the specification describes: each name preceded by the separator.\<close>

definition joined :: "string list \<Rightarrow> string" where
  "joined xs = concat (map (\<lambda>elem. ''_'' @ elem) xs)"

section \<open>The state of one build\<close>

text \<open>
  Errors are values. \<open>None\<close> of the outer \<open>option\<close> of a \<open>result\<close> means that the
  fuel of the recursion through \<^verbatim>\<open>spec.definition\<close> ran out before the call returned.
\<close>

datatype error = AttributeError | TypeError | KeyError | RegistryError | AssertionError

type_synonym 'a result = "(error + 'a) option"

text \<open>
  The calls to the collaborators that are not part of this module are recorded in call
  order: the converter \<^verbatim>\<open>swagger.schema2jsonschema\<close>, the naming policy
  \<^verbatim>\<open>spec.schema_name_resolver\<close> and the host's \<^verbatim>\<open>spec.definition\<close>. The record
  is not read by any function of the model.
\<close>

datatype call =
    CallSchema2jsonschema pyval
  | CallResolver key
  | CallDefinition string pyval

text \<open>
  The store of schema instances (\<open>next_addr\<close> is the next unused address), and the
  \<^verbatim>\<open>spec\<close> object: its naming policy, the plugin's slot \<^verbatim>\<open>spec.plugins[NAME]\<close> (the
  entry \<^verbatim>\<open>'refs'\<close>, which may be missing), and the host's definitions. The naming
  policy returns a name or a false-y value: \<open>None\<close>, or the empty name.
\<close>

record world =
  heap :: "addr \<Rightarrow> schema_obj"
  next_addr :: addr
  schema_name_resolver :: "(key \<Rightarrow> string option) option"
  refs :: "(key \<times> string) list option"
  definitions :: "(string \<times> pyval) list"
  calls :: "call list"

fun name_truthy :: "string option \<Rightarrow> bool" where
  "name_truthy None = False"
| "name_truthy (Some s) = (s \<noteq> [])"

text \<open>\<^verbatim>\<open>plug.get('refs', {})\<close>.\<close>

definition the_refs :: "world \<Rightarrow> (key \<times> string) list" where
  "the_refs w = (case refs w of None \<Rightarrow> [] | Some r \<Rightarrow> r)"

text \<open>
  What the module imports from elsewhere is a parameter of this development:
  \<^item> \<open>schema2jsonschema\<close>: the schema-to-descriptor converter
    \<^verbatim>\<open>swagger.schema2jsonschema(schema, spec, dump, name)\<close>. As the specification
    describes it, it is a function of the schema, of what it can read through
    \<^verbatim>\<open>spec\<close>, and of \<^verbatim>\<open>dump\<close> and \<^verbatim>\<open>name\<close> where the caller passes them; it
    returns a descriptor, raises no error and changes nothing.
  \<^item> \<open>schema2parameters\<close>: \<^verbatim>\<open>swagger.schema2parameters\<close>, the expanded parameter
    list of a schema class for a location.
  \<^item> \<open>get_class\<close>: \<^verbatim>\<open>marshmallow.class_registry.get_class\<close>; \<open>None\<close> when the
    lookup raises.
  \<^item> \<open>class_fields\<close>: the fields of a fresh instance of a schema class, as marshmallow's
    constructor sets them up.
\<close>

record deps =
  schema2jsonschema :: "world \<Rightarrow> pyval \<Rightarrow> bool option \<Rightarrow> string option \<Rightarrow> pyval"
  schema2parameters :: "world \<Rightarrow> pyclass \<Rightarrow> pyval \<Rightarrow> pyval list"
  get_class :: "pyval \<Rightarrow> pyclass option"
  class_fields :: "pyclass \<Rightarrow> (string \<times> mm_field) list"

section \<open>Registration and discovery\<close>

text \<open>\<^verbatim>\<open>schema()\<close> for a schema class allocates a new instance; an instance is returned as
  it is. The instance of a builtin class is no schema instance, whatever value it is.\<close>

definition get_schema_instance :: "deps \<Rightarrow> world \<Rightarrow> pyval \<Rightarrow> pyval \<times> world" where
  "get_schema_instance d w schema =
     (case schema of
        VClass c \<Rightarrow>
          (if is_schema_class c
           then (VObj (next_addr w),
                 w\<lparr>heap := (heap w)(next_addr w :=
                      \<lparr>obj_class = c, exclude = [], only = [], many = False,
                       obj_fields = class_fields d c\<rparr>),
                   next_addr := Suc (next_addr w)\<rparr>)
           else (VNone, w))
      | _ \<Rightarrow> (schema, w))"

text \<open>\<^verbatim>\<open>copy.copy(obj)\<close>: a new object with the same attribute values.\<close>

definition copy_copy :: "world \<Rightarrow> addr \<Rightarrow> addr \<times> world" where
  "copy_copy w b =
     (next_addr w,
      w\<lparr>heap := (heap w)(next_addr w := heap w b), next_addr := Suc (next_addr w)\<rparr>)"

text \<open>\<^verbatim>\<open>obj.many = v\<close>.\<close>

definition set_many :: "world \<Rightarrow> addr \<Rightarrow> bool \<Rightarrow> world" where
  "set_many w a v = w\<lparr>heap := (heap w)(a := (heap w a)\<lparr>many := v\<rparr>)\<rparr>"

text \<open>
  The part of the loop body of \<^verbatim>\<open>inspect_schema_for_auto_referencing\<close> under
  \<^verbatim>\<open>if nested_schema_ref:\<close>. \<open>defn\<close> is the host's \<^verbatim>\<open>spec.definition\<close>.
\<close>

definition register_nested ::
  "(world \<Rightarrow> string \<Rightarrow> pyval \<Rightarrow> world result) \<Rightarrow> world \<Rightarrow> addr \<Rightarrow> key \<Rightarrow> world result" where
  "register_nested defn w nested_schema nested_schema_ref =
     (if key_truthy nested_schema_ref then
        (case refs w of
           None \<Rightarrow> Some (Inl KeyError)
         | Some plug_refs \<Rightarrow>
            (if map_of plug_refs nested_schema_ref = None then
               (case schema_name_resolver w of
                  None \<Rightarrow> Some (Inl TypeError)
                | Some resolver \<Rightarrow>
                   (let definition_name = resolver nested_schema_ref;
                        w1 = w\<lparr>calls := calls w @ [CallResolver nested_schema_ref]\<rparr>;
                        (nested_schema', w2) =
                          (if many (heap w1 nested_schema)
                           then (let (c, w') = copy_copy w1 nested_schema
                                 in (c, set_many w' c False))
                           else (nested_schema, w1))
                    in if name_truthy definition_name
                       then defn w2 (the definition_name) (VObj nested_schema')
                       else Some (Inr w2)))
             else Some (Inr w)))
      else Some (Inr w))"

text \<open>The loop body. A \<^verbatim>\<open>fields.List\<close> has no attribute \<^verbatim>\<open>schema\<close>, so the
  second branch raises at \<^verbatim>\<open>nested_schema = field.schema\<close>.\<close>

definition inspect_field ::
  "(world \<Rightarrow> string \<Rightarrow> pyval \<Rightarrow> world result) \<Rightarrow> world \<Rightarrow> string \<times> mm_field \<Rightarrow> world result" where
  "inspect_field defn w item =
     (case snd item of
        Nested b \<Rightarrow> register_nested defn w b (get_schema_ref (heap w) (VObj b))
      | List_field container \<Rightarrow>
          (if is_Nested container then Some (Inl AttributeError) else Some (Inr w))
      | Plain \<Rightarrow> Some (Inr w))"

fun inspect_fields ::
  "(world \<Rightarrow> string \<Rightarrow> pyval \<Rightarrow> world result) \<Rightarrow> world \<Rightarrow> (string \<times> mm_field) list
     \<Rightarrow> world result" where
  "inspect_fields defn w [] = Some (Inr w)"
| "inspect_fields defn w (item # rest) =
     (case inspect_field defn w item of
        None \<Rightarrow> None
      | Some (Inl e) \<Rightarrow> Some (Inl e)
      | Some (Inr w') \<Rightarrow> inspect_fields defn w' rest)"

definition inspect_schema_for_auto_referencing ::
  "(world \<Rightarrow> string \<Rightarrow> pyval \<Rightarrow> world result) \<Rightarrow> world \<Rightarrow> addr \<Rightarrow> world result" where
  "inspect_schema_for_auto_referencing defn w original_schema_instance =
     (if schema_name_resolver w = None then Some (Inl AssertionError)
      else
        (let w1 = (if refs w = None then w\<lparr>refs := Some []\<rparr> else w)
         in inspect_fields defn w1 (obj_fields (heap w1 original_schema_instance))))"

text \<open>
  The definition helper. \<open>schema\<close> is a schema class or a schema instance; the converter
  and the field loop need a schema instance, and any other value fails there.
\<close>

definition schema_definition_helper ::
  "(world \<Rightarrow> string \<Rightarrow> pyval \<Rightarrow> world result) \<Rightarrow> deps \<Rightarrow> world \<Rightarrow> string \<Rightarrow> pyval
     \<Rightarrow> (world \<times> pyval) result" where
  "schema_definition_helper defn d w name schema =
     (let schema_ref = get_schema_ref (heap w) schema;
          (schema_instance, w1) = get_schema_instance d w schema;
          w2 = w1\<lparr>refs := Some (AList.update schema_ref name (the_refs w1))\<rparr>
      in case schema_instance of
           VObj inst \<Rightarrow>
             (let json_schema = schema2jsonschema d w2 schema_instance None (Some name);
                  w3 = w2\<lparr>calls := calls w2 @ [CallSchema2jsonschema schema_instance]\<rparr>
              in if schema_name_resolver w3 \<noteq> None
                 then (case inspect_schema_for_auto_referencing defn w3 inst of
                         None \<Rightarrow> None
                       | Some (Inl e) \<Rightarrow> Some (Inl e)
                       | Some (Inr w4) \<Rightarrow> Some (Inr (w4, json_schema)))
                 else Some (Inr (w3, json_schema)))
         | _ \<Rightarrow> Some (Inl AttributeError))"

text \<open>
  Modelled from the spec: the host's \<^verbatim>\<open>spec.definition(name, schema=...)\<close>, which is
  not part of this module. It calls the registered definition helper with the name and the
  schema and stores the descriptor under the name. The first argument is the fuel: one
  unit for each nested call.
\<close>

primrec spec_definition :: "nat \<Rightarrow> deps \<Rightarrow> world \<Rightarrow> string \<Rightarrow> pyval \<Rightarrow> world result" where
  "spec_definition 0 d w name schema = None"
| "spec_definition (Suc n) d w name schema =
     (case schema_definition_helper (spec_definition n d) d
             (w\<lparr>calls := calls w @ [CallDefinition name schema]\<rparr>) name schema of
        None \<Rightarrow> None
      | Some (Inl e) \<Rightarrow> Some (Inl e)
      | Some (Inr (w', json_schema)) \<Rightarrow>
          Some (Inr (w'\<lparr>definitions := AList.update name json_schema (definitions w')\<rparr>)))"

section \<open>Resolving references\<close>

definition resolve_schema_cls :: "deps \<Rightarrow> (addr \<Rightarrow> schema_obj) \<Rightarrow> pyval \<Rightarrow> error + pyclass" where
  "resolve_schema_cls d h schema =
     (let lookup = (case get_class d schema of None \<Rightarrow> Inl RegistryError | Some c \<Rightarrow> Inr c)
      in case schema of
           VClass c \<Rightarrow> (if is_schema_class c then Inr c else lookup)
         | VObj a \<Rightarrow> Inr (obj_class (h a))
         | _ \<Rightarrow> lookup)"

fun is_dict :: "pyval \<Rightarrow> bool" where
  "is_dict (VDict kvs) = True"
| "is_dict v = False"

fun is_instance :: "pyval \<Rightarrow> bool" where
  "is_instance (VObj a) = True"
| "is_instance v = False"

fun key_of_val :: "pyval \<Rightarrow> key" where
  "key_of_val (VObj a) = KObj a"
| "key_of_val (VClass c) = KClass c"
| "key_of_val v = KClass (Builtin ''object'')"

text \<open>
  The part of \<^verbatim>\<open>resolve_schema_dict\<close> after the test for a literal dictionary.
  \<^verbatim>\<open>spec\<close> is the \<^verbatim>\<open>APISpec\<close> object of the build, with the plugin set up, as the
  host passes it to its helpers; a call with \<^verbatim>\<open>spec=None\<close> (an empty registry) is not
  part of the model.
\<close>

definition resolve_reference ::
  "deps \<Rightarrow> world \<Rightarrow> pyval \<Rightarrow> bool \<Rightarrow> bool \<Rightarrow> error + world \<times> pyval" where
  "resolve_reference d w schema dump use_instances =
     (case (if is_instance schema \<and> use_instances then Inr schema
            else map_sum id VClass (resolve_schema_cls d (heap w) schema)) of
        Inl e \<Rightarrow> Inl e
      | Inr schema_cls \<Rightarrow>
         (let schema_ref0 = get_schema_ref (heap w) schema;
              schema_ref = (if \<not> key_truthy schema_ref0 then key_of_val schema_cls
                            else schema_ref0)
          in case map_of (the_refs w) schema_ref of
               Some name \<Rightarrow>
                 (let ref_schema = VDict [(SKey ''$ref'', VStr (''#/definitions/'' @ name))]
                  in if getattr_many (heap w) schema
                     then Inr (w, VDict [(SKey ''type'', VStr ''array''),
                                         (SKey ''items'', ref_schema)])
                     else Inr (w, ref_schema))
             | None \<Rightarrow>
                 (let schema' = (if \<not> is_instance schema then schema_cls else schema)
                  in Inr (w\<lparr>calls := calls w @ [CallSchema2jsonschema schema']\<rparr>,
                          schema2jsonschema d w schema' (Some dump) None))))"

definition array_shaped :: "(dkey \<times> pyval) list \<Rightarrow> bool" where
  "array_shaped kvs =
     (map_of kvs (SKey ''type'') = Some (VStr ''array'') \<and> map_of kvs (SKey ''items'') \<noteq> None)"

function (sequential) resolve_schema_dict ::
  "deps \<Rightarrow> world \<Rightarrow> pyval \<Rightarrow> bool \<Rightarrow> bool \<Rightarrow> error + world \<times> pyval" where
  "resolve_schema_dict d w (VDict kvs) dump use_instances =
     (if array_shaped kvs
      then (case resolve_schema_dict d w (the (map_of kvs (SKey ''items''))) True use_instances of
              Inl e \<Rightarrow> Inl e
            | Inr (w', r) \<Rightarrow> Inr (w', VDict (AList.update (SKey ''items'') r kvs)))
      else Inr (w, VDict kvs))"
| "resolve_schema_dict d w schema dump use_instances =
     resolve_reference d w schema dump use_instances"
  by pat_completeness auto

termination
proof (relation "measure (\<lambda>(d, w, schema, dump, use_instances). size schema)")
  show "wf (measure (\<lambda>(d, w, schema, dump, use_instances). size schema))"
    by simp
next
  fix d :: deps and w :: world and kvs :: "(dkey \<times> pyval) list"
    and dump use_instances :: bool
  assume "array_shaped kvs"
  then obtain v where v: "map_of kvs (SKey ''items'') = Some v"
    by (auto simp: array_shaped_def)
  then have "(SKey ''items'', v) \<in> set kvs"
    by (rule map_of_SomeD)
  then have "size v < size (VDict kvs)"
    by (induction kvs) auto
  with v show "((d, w, the (map_of kvs (SKey ''items'')), True, use_instances),
                (d, w, VDict kvs, dump, use_instances))
               \<in> measure (\<lambda>(d, w, schema, dump, use_instances). size schema)"
    by simp
qed

section \<open>Rewriting operations\<close>

text \<open>Iterating a value with \<^verbatim>\<open>for\<close>: the elements of a list, the keys of a dictionary,
  the characters of a string; any other value of the model is not iterable.\<close>

fun key_val :: "dkey \<Rightarrow> pyval" where
  "key_val (SKey s) = VStr s"
| "key_val (IKey i) = VInt i"

fun py_iter :: "pyval \<Rightarrow> error + pyval list" where
  "py_iter (VList xs) = Inr xs"
| "py_iter (VDict kvs) = Inr (map (\<lambda>kv. key_val (fst kv)) kvs)"
| "py_iter (VStr s) = Inr (map (\<lambda>c. VStr [c]) s)"
| "py_iter v = Inl TypeError"

text \<open>The loop of \<^verbatim>\<open>resolve_parameters\<close>; a parameter that is no dictionary has no
  \<^verbatim>\<open>get\<close>.\<close>

fun resolve_parameters_loop ::
  "deps \<Rightarrow> world \<Rightarrow> pyval list \<Rightarrow> pyval list \<Rightarrow> error + pyval list" where
  "resolve_parameters_loop d w [] resolved = Inr resolved"
| "resolve_parameters_loop d w (parameter # rest) resolved =
     (case parameter of
        VDict kvs \<Rightarrow>
          (case map_of kvs (SKey ''schema'') of
             None \<Rightarrow> resolve_parameters_loop d w rest (resolved @ [parameter])
           | Some schema \<Rightarrow>
               (if \<not> is_dict schema then
                  (case resolve_schema_cls d (heap w) schema of
                     Inl e \<Rightarrow> Inl e
                   | Inr schema_cls \<Rightarrow>
                       (if is_schema_class schema_cls \<and> map_of kvs (SKey ''in'') \<noteq> None
                        then resolve_parameters_loop d w rest
                               (resolved @ schema2parameters d w schema_cls
                                              (the (map_of kvs (SKey ''in''))))
                        else resolve_parameters_loop d w rest (resolved @ [parameter])))
                else resolve_parameters_loop d w rest (resolved @ [parameter])))
      | _ \<Rightarrow> Inl AttributeError)"

definition resolve_parameters :: "deps \<Rightarrow> world \<Rightarrow> pyval \<Rightarrow> error + pyval" where
  "resolve_parameters d w parameters =
     (case py_iter parameters of
        Inl e \<Rightarrow> Inl e
      | Inr ps \<Rightarrow> map_sum id VList (resolve_parameters_loop d w ps []))"

text \<open>\<^verbatim>\<open>'schema' in s\<close> for a string \<open>s\<close> is a substring test.\<close>

fun is_infix :: "string \<Rightarrow> string \<Rightarrow> bool" where
  "is_infix p [] = (p = [])"
| "is_infix p (c # s) = (take (length p) (c # s) = p \<or> is_infix p s)"

text \<open>
  The body of the loop over the responses:
  \<^verbatim>\<open>if 'schema' in response: response['schema'] = resolve_schema_dict(spec, response['schema'])\<close>.
  A list or a string can contain \<^verbatim>\<open>'schema'\<close> but cannot be indexed by it.
\<close>

definition rewrite_response :: "deps \<Rightarrow> world \<Rightarrow> pyval \<Rightarrow> error + world \<times> pyval" where
  "rewrite_response d w response =
     (case response of
        VDict kvs \<Rightarrow>
          (case map_of kvs (SKey ''schema'') of
             None \<Rightarrow> Inr (w, response)
           | Some schema \<Rightarrow>
               (case resolve_schema_dict d w schema True False of
                  Inl e \<Rightarrow> Inl e
                | Inr (w', r) \<Rightarrow> Inr (w', VDict (AList.update (SKey ''schema'') r kvs))))
      | VList xs \<Rightarrow> (if VStr ''schema'' \<in> set xs then Inl TypeError else Inr (w, response))
      | VStr s \<Rightarrow> (if is_infix ''schema'' s then Inl TypeError else Inr (w, response))
      | _ \<Rightarrow> Inl TypeError)"

fun rewrite_responses ::
  "deps \<Rightarrow> world \<Rightarrow> (dkey \<times> pyval) list \<Rightarrow> error + world \<times> (dkey \<times> pyval) list" where
  "rewrite_responses d w [] = Inr (w, [])"
| "rewrite_responses d w ((code, response) # rest) =
     (case rewrite_response d w response of
        Inl e \<Rightarrow> Inl e
      | Inr (w1, response') \<Rightarrow>
          (case rewrite_responses d w1 rest of
             Inl e \<Rightarrow> Inl e
           | Inr (w2, rest') \<Rightarrow> Inr (w2, (code, response') # rest')))"

text \<open>The body of the loop of \<^verbatim>\<open>schema_operation_resolver\<close> for an operation that is a
  dictionary. The dictionaries are changed in place; the model returns them.\<close>

definition rewrite_operation ::
  "deps \<Rightarrow> world \<Rightarrow> (dkey \<times> pyval) list \<Rightarrow> error + world \<times> (dkey \<times> pyval) list" where
  "rewrite_operation d w operation =
     (case (case map_of operation (SKey ''parameters'') of
              None \<Rightarrow> Inr operation
            | Some parameters \<Rightarrow>
                (case resolve_parameters d w parameters of
                   Inl e \<Rightarrow> Inl e
                 | Inr resolved \<Rightarrow> Inr (AList.update (SKey ''parameters'') resolved operation))) of
        Inl e \<Rightarrow> Inl e
      | Inr operation1 \<Rightarrow>
          (case map_of operation1 (SKey ''responses'') of
             None \<Rightarrow> Inr (w, operation1)
           | Some (VDict responses) \<Rightarrow>
               (case rewrite_responses d w responses of
                  Inl e \<Rightarrow> Inl e
                | Inr (w', responses') \<Rightarrow>
                    Inr (w', AList.update (SKey ''responses'') (VDict responses') operation1))
           | Some _ \<Rightarrow> Inl AttributeError))"

fun schema_operation_resolver ::
  "deps \<Rightarrow> world \<Rightarrow> (dkey \<times> pyval) list \<Rightarrow> error + world \<times> (dkey \<times> pyval) list" where
  "schema_operation_resolver d w [] = Inr (w, [])"
| "schema_operation_resolver d w ((verb, operation) # rest) =
     (case operation of
        VDict kvs \<Rightarrow>
          (case rewrite_operation d w kvs of
             Inl e \<Rightarrow> Inl e
           | Inr (w1, kvs') \<Rightarrow>
               (case schema_operation_resolver d w1 rest of
                  Inl e \<Rightarrow> Inl e
                | Inr (w2, rest') \<Rightarrow> Inr (w2, (verb, VDict kvs') # rest')))
      | _ \<Rightarrow>
          (case schema_operation_resolver d w rest of
             Inl e \<Rightarrow> Inl e
           | Inr (w2, rest') \<Rightarrow> Inr (w2, (verb, operation) # rest')))"

section \<open>Example schemas\<close>

text \<open>
  A small store for the concrete instances of the theorems below: plain and filtered
  instances of a class \<open>UserSchema\<close>, and a chain in which an instance of \<open>ASchema\<close>
  nests one of \<open>BSchema\<close> (with \<^verbatim>\<open>many=True\<close>), which nests one of \<open>CSchema\<close>.
\<close>

definition UserSchema :: pyclass where
  "UserSchema = SchemaClass 1 ''UserSchema''"

definition ASchema :: pyclass where
  "ASchema = SchemaClass 2 ''ASchema''"

definition BSchema :: pyclass where
  "BSchema = SchemaClass 3 ''BSchema''"

definition CSchema :: pyclass where
  "CSchema = SchemaClass 4 ''CSchema''"

definition plain_instance :: "pyclass \<Rightarrow> (string \<times> mm_field) list \<Rightarrow> schema_obj" where
  "plain_instance c fs =
     \<lparr>obj_class = c, exclude = [], only = [], many = False, obj_fields = fs\<rparr>"

definition demo_heap :: "addr \<Rightarrow> schema_obj" where
  "demo_heap =
     (\<lambda>a. plain_instance UserSchema [(''id'', Plain), (''name'', Plain)])
     (1 := (plain_instance UserSchema [(''id'', Plain)])\<lparr>exclude := [''name'', ''email'']\<rparr>,
      2 := (plain_instance UserSchema [(''id'', Plain)])\<lparr>exclude := [''email'', ''name'']\<rparr>,
      3 := (plain_instance UserSchema [(''id'', Plain)])\<lparr>only := [''id'']\<rparr>,
      4 := (plain_instance UserSchema [(''id'', Plain)])
             \<lparr>exclude := [''name''], only := [''id'']\<rparr>,
      5 := (plain_instance UserSchema [(''id'', Plain), (''name'', Plain)])\<lparr>many := True\<rparr>,
      6 := (plain_instance UserSchema [(''id'', Plain)])
             \<lparr>exclude := [''name'', ''email''], many := True\<rparr>,
      10 := plain_instance ASchema [(''title'', Plain), (''b'', Nested 11)],
      11 := (plain_instance BSchema [(''c'', Nested 12), (''n'', Plain)])\<lparr>many := True\<rparr>,
      12 := plain_instance CSchema [(''x'', Plain)])"

definition demo_deps :: deps where
  "demo_deps =
     \<lparr>schema2jsonschema = (\<lambda>w schema dump name. VDict [(SKey ''type'', VStr ''object'')]),
      schema2parameters = (\<lambda>w c location. []),
      get_class = (\<lambda>v. if v = VStr ''UserSchema'' then Some UserSchema else None),
      class_fields = (\<lambda>c. [(''id'', Plain), (''name'', Plain)])\<rparr>"

text \<open>A naming policy that names every schema, and one that declines every schema.\<close>

fun name_all :: "key \<Rightarrow> string option" where
  "name_all (KClass c) = Some (''Auto'' @ cls_name c)"
| "name_all (KName s) = Some (''Auto'' @ s)"
| "name_all (KObj a) = Some ''Object''"

definition name_none :: "key \<Rightarrow> string option" where
  "name_none k = None"

definition demo_world :: world where
  "demo_world =
     \<lparr>heap = demo_heap, next_addr = 20, schema_name_resolver = None, refs = None,
      definitions = [], calls = []\<rparr>"

text \<open>The example world after \<open>UserSchema\<close> has been registered, as a class, under the
  name \<open>User\<close>: the helper made the instance at address 20.\<close>

definition user_world :: world where
  "user_world =
     \<lparr>heap = demo_heap(20 := plain_instance UserSchema [(''id'', Plain), (''name'', Plain)]),
      next_addr = 21, schema_name_resolver = None,
      refs = Some [(KClass UserSchema, ''User'')],
      definitions = [], calls = [CallSchema2jsonschema (VObj 20)]\<rparr>"

text \<open>An operations dictionary with two entries that are no dictionaries, and what the
  rewriter makes of it in \<open>user_world\<close>.\<close>

definition demo_operations :: "(dkey \<times> pyval) list" where
  "demo_operations =
     [(SKey ''get'',
        VDict [(SKey ''description'', VStr ''Get a user''),
               (SKey ''responses'',
                  VDict [(IKey 200, VDict [(SKey ''description'', VStr ''A user''),
                                           (SKey ''schema'', VClass UserSchema)])])]),
      (SKey ''x-note'', VStr ''not an operation''),
      (SKey ''post'',
        VDict [(SKey ''parameters'',
                  VList [VDict [(SKey ''in'', VStr ''body''), (SKey ''name'', VStr ''user'')]])]),
      (SKey ''x-list'', VList [VInt 1])]"

definition demo_operations_rewritten :: "(dkey \<times> pyval) list" where
  "demo_operations_rewritten =
     [(SKey ''get'',
        VDict [(SKey ''description'', VStr ''Get a user''),
               (SKey ''responses'',
                  VDict [(IKey 200, VDict [(SKey ''description'', VStr ''A user''),
                                           (SKey ''schema'',
                                              VDict [(SKey ''$ref'', VStr ''#/definitions/User'')])])])]),
      (SKey ''x-note'', VStr ''not an operation''),
      (SKey ''post'',
        VDict [(SKey ''parameters'',
                  VList [VDict [(SKey ''in'', VStr ''body''), (SKey ''name'', VStr ''user'')]])]),
      (SKey ''x-list'', VList [VInt 1])]"

section \<open>Predicates and states used by the proofs\<close>

text \<open>
  What a run of the discovery may change, from a state \<open>w\<close> to a state \<open>w'\<close>:
  objects that exist keep their attribute values; the store only grows, and an object
  that is new or changed has \<open>many\<close> off; the naming policy stays; a key that is
  registered keeps its name, unless it is in \<open>X\<close> (the key that the caller itself
  binds); a key outside \<open>X\<close> that becomes registered gets the non-empty name that the
  naming policy returns for it; the keys of the registry stay distinct; calls are only
  added to the record, and every object handed to \<open>spec.definition\<close> has \<open>many\<close> off.
\<close>

definition discovery_step :: "key set \<Rightarrow> world \<Rightarrow> world \<Rightarrow> bool" where
  "discovery_step X w w' \<longleftrightarrow>
     (\<forall>a<next_addr w. heap w' a = heap w a)
     \<and> (\<forall>a. heap w' a \<noteq> heap w a \<longrightarrow> \<not> many (heap w' a))
     \<and> next_addr w \<le> next_addr w'
     \<and> schema_name_resolver w' = schema_name_resolver w
     \<and> (\<forall>k v. k \<notin> X \<longrightarrow> map_of (the_refs w) k = Some v \<longrightarrow> map_of (the_refs w') k = Some v)
     \<and> (\<forall>k v. k \<notin> X \<longrightarrow> map_of (the_refs w) k = None \<longrightarrow> map_of (the_refs w') k = Some v \<longrightarrow>
            (\<exists>r. schema_name_resolver w = Some r \<and> r k = Some v \<and> v \<noteq> []))
     \<and> (distinct (map fst (the_refs w)) \<longrightarrow> distinct (map fst (the_refs w')))
     \<and> (\<exists>cs. calls w' = calls w @ cs
            \<and> (\<forall>name s. CallDefinition name s \<in> set cs \<longrightarrow> (\<exists>c. s = VObj c \<and> \<not> many (heap w' c))))"

text \<open>The contract that the discovery needs of \<open>spec.definition\<close>, for an instance with
  \<open>many\<close> off: the call is such a run, and it binds the key of the instance to the
  name.\<close>

definition defn_ok :: "(world \<Rightarrow> string \<Rightarrow> pyval \<Rightarrow> world result) \<Rightarrow> bool" where
  "defn_ok defn \<longleftrightarrow>
     (\<forall>w name c w'. defn w name (VObj c) = Some (Inr w') \<longrightarrow> \<not> many (heap w c) \<longrightarrow>
        discovery_step {get_schema_ref (heap w) (VObj c)} w w'
        \<and> map_of (the_refs w') (get_schema_ref (heap w) (VObj c)) = Some name)"

text \<open>The state in which the loop body calls \<open>spec.definition\<close>, or leaves when the policy
  declines.\<close>

definition before_definition :: "world \<Rightarrow> addr \<Rightarrow> key \<Rightarrow> addr \<times> world" where
  "before_definition w b k =
     (let w1 = w\<lparr>calls := calls w @ [CallResolver k]\<rparr>
      in if many (heap w1 b)
         then (let (c, w') = copy_copy w1 b in (c, set_many w' c False))
         else (b, w1))"

text \<open>The state of the helper, called for an instance, after the conversion.\<close>

definition after_conversion :: "world \<Rightarrow> string \<Rightarrow> addr \<Rightarrow> world" where
  "after_conversion w name c =
     w\<lparr>refs := Some (AList.update (get_schema_ref (heap w) (VObj c)) name (the_refs w)),
       calls := calls w @ [CallSchema2jsonschema (VObj c)]\<rparr>"

text \<open>The state that the converter sees: the key is bound, the conversion is not yet
  recorded.\<close>

definition bound_world :: "world \<Rightarrow> string \<Rightarrow> addr \<Rightarrow> world" where
  "bound_world w name c =
     w\<lparr>refs := Some (AList.update (get_schema_ref (heap w) (VObj c)) name (the_refs w))\<rparr>"

text \<open>
  Worlds for the concrete runs: \<open>chain_world\<close> has a naming policy that names every
  schema, and \<open>chain_registered\<close> is what registering the instance of \<open>ASchema\<close>
  makes of it; \<open>declining_world\<close> has a policy that declines; \<open>once_world\<close> and
  \<open>twice_world\<close> are the states after one and after two registrations of instances of
  \<open>UserSchema\<close>.
\<close>

definition object_descriptor :: pyval where
  "object_descriptor = VDict [(SKey ''type'', VStr ''object'')]"

definition chain_world :: world where
  "chain_world = demo_world\<lparr>schema_name_resolver := Some name_all\<rparr>"

definition chain_registered :: world where
  "chain_registered =
     \<lparr>heap = demo_heap(20 := (demo_heap 11)\<lparr>many := False\<rparr>),
      next_addr = 21,
      schema_name_resolver = Some name_all,
      refs = Some [(KClass ASchema, ''A''), (KClass BSchema, ''AutoBSchema''),
                   (KClass CSchema, ''AutoCSchema'')],
      definitions = [(''AutoCSchema'', object_descriptor), (''AutoBSchema'', object_descriptor)],
      calls = [CallSchema2jsonschema (VObj 10),
               CallResolver (KClass BSchema), CallDefinition ''AutoBSchema'' (VObj 20),
               CallSchema2jsonschema (VObj 20),
               CallResolver (KClass CSchema), CallDefinition ''AutoCSchema'' (VObj 12),
               CallSchema2jsonschema (VObj 12)]\<rparr>"

definition declining_world :: world where
  "declining_world =
     demo_world\<lparr>schema_name_resolver := Some name_none,
                refs := Some [(KClass ASchema, ''A'')]\<rparr>"

definition declined_world :: world where
  "declined_world =
     declining_world\<lparr>heap := demo_heap(20 := (demo_heap 11)\<lparr>many := False\<rparr>),
                     next_addr := 21,
                     calls := [CallResolver (KClass BSchema)]\<rparr>"

definition once_world :: world where
  "once_world =
     demo_world\<lparr>refs := Some [(KClass UserSchema, ''User'')],
                calls := [CallSchema2jsonschema (VObj 0)]\<rparr>"

definition twice_world :: world where
  "twice_world =
     demo_world\<lparr>refs := Some [(KClass UserSchema, ''Person'')],
                calls := [CallSchema2jsonschema (VObj 0), CallSchema2jsonschema (VObj 5)]\<rparr>"

text \<open>
  Worlds with a naming policy that declines: \<open>asking_world\<close> before any registration,
  \<open>asked_once_world\<close> after the instance of \<open>ASchema\<close> has been registered under the
  name \<open>A\<close>, and \<open>asked_twice_world\<close> after it has been registered again, under the
  name \<open>A2\<close>. Each discovery asks the policy for \<open>BSchema\<close> and makes a copy of the
  instance at address 11, which has \<open>many\<close> on.
\<close>

definition asking_world :: world where
  "asking_world = demo_world\<lparr>schema_name_resolver := Some name_none\<rparr>"

definition asked_once_world :: world where
  "asked_once_world =
     \<lparr>heap = demo_heap(20 := (demo_heap 11)\<lparr>many := False\<rparr>),
      next_addr = 21,
      schema_name_resolver = Some name_none,
      refs = Some [(KClass ASchema, ''A'')],
      definitions = [],
      calls = [CallSchema2jsonschema (VObj 10), CallResolver (KClass BSchema)]\<rparr>"

definition asked_twice_world :: world where
  "asked_twice_world =
     \<lparr>heap = demo_heap(20 := (demo_heap 11)\<lparr>many := False\<rparr>,
                       21 := (demo_heap 11)\<lparr>many := False\<rparr>),
      next_addr = 22,
      schema_name_resolver = Some name_none,
      refs = Some [(KClass ASchema, ''A2'')],
      definitions = [],
      calls = [CallSchema2jsonschema (VObj 10), CallResolver (KClass BSchema),
               CallSchema2jsonschema (VObj 10), CallResolver (KClass BSchema)]\<rparr>"

text \<open>A field that is neither a nested schema nor a list of nested schemas.\<close>

fun no_schema_field :: "mm_field \<Rightarrow> bool" where
  "no_schema_field Plain = True"
| "no_schema_field (Nested b) = False"
| "no_schema_field (List_field container) = (\<not> is_Nested container)"

text \<open>
  For the termination of the discovery: in a well-formed world the nested-schema fields of
  the objects that exist refer to objects that exist. \<open>unregistered\<close> holds the identity
  keys of existing objects that the registry lacks; every nested call of
  \<open>spec.definition\<close> registers one of them, and no run adds one.
\<close>

definition nested_addrs :: "(string \<times> mm_field) list \<Rightarrow> addr set" where
  "nested_addrs items = {b. \<exists>f. (f, Nested b) \<in> set items}"

definition wf_world :: "world \<Rightarrow> bool" where
  "wf_world w \<longleftrightarrow> (\<forall>x<next_addr w. \<forall>b\<in>nested_addrs (obj_fields (heap w x)). b < next_addr w)"

definition keys_of :: "world \<Rightarrow> key set" where
  "keys_of w = (\<lambda>x. get_schema_ref (heap w) (VObj x)) ` {..<next_addr w}"

definition unregistered :: "world \<Rightarrow> key set" where
  "unregistered w = keys_of w - fst ` set (the_refs w)"

definition shrinks :: "world \<Rightarrow> world \<Rightarrow> bool" where
  "shrinks w w' \<longleftrightarrow>
     wf_world w' \<and> next_addr w \<le> next_addr w' \<and> unregistered w' \<subseteq> unregistered w"

definition defn_shrinks :: "(world \<Rightarrow> string \<Rightarrow> pyval \<Rightarrow> world result) \<Rightarrow> bool" where
  "defn_shrinks defn \<longleftrightarrow>
     (\<forall>w name c w'. defn w name (VObj c) = Some (Inr w') \<longrightarrow> wf_world w \<longrightarrow> c < next_addr w \<longrightarrow>
        shrinks w w')"

text \<open>One \<open>spec.definition\<close> returns whatever the other returns.\<close>

definition defn_le ::
  "(world \<Rightarrow> string \<Rightarrow> pyval \<Rightarrow> world result) \<Rightarrow> (world \<Rightarrow> string \<Rightarrow> pyval \<Rightarrow> world result) \<Rightarrow> bool" where
  "defn_le f g \<longleftrightarrow> (\<forall>w name s r. f w name s = Some r \<longrightarrow> g w name s = Some r)"

section \<open>The identity key\<close>

lemma add_elems_joined: "add_elems acc xs = acc @ joined xs"
  by (induction xs arbitrary: acc) (simp_all add: joined_def)

text \<open>
  Claim C3. The identity key of a class is the class itself. For an instance, a non-empty
  \<open>exclude\<close> contributes \<open>Without\<close> followed by each excluded name, each preceded by
  \<open>_\<close>, in iteration order; a non-empty \<open>only\<close> contributes \<open>Only\<close> in the same way;
  when both are there the exclude part comes first; the key is the base class name followed
  by these parts. An instance with neither has its class as key. The function reads the
  object and nothing else, and gives a key for every input.
\<close>

theorem get_schema_ref_cases:
  "get_schema_ref h (VClass c) = KClass c
   \<and> (exclude (h a) \<noteq> [] \<and> only (h a) = [] \<longrightarrow>
        get_schema_ref h (VObj a) =
          KName (cls_name (obj_class (h a)) @ ''Without'' @ joined (exclude (h a))))
   \<and> (exclude (h a) = [] \<and> only (h a) \<noteq> [] \<longrightarrow>
        get_schema_ref h (VObj a) =
          KName (cls_name (obj_class (h a)) @ ''Only'' @ joined (only (h a))))
   \<and> (exclude (h a) \<noteq> [] \<and> only (h a) \<noteq> [] \<longrightarrow>
        get_schema_ref h (VObj a) =
          KName (cls_name (obj_class (h a)) @ ''Without'' @ joined (exclude (h a))
                   @ ''Only'' @ joined (only (h a))))
   \<and> (exclude (h a) = [] \<and> only (h a) = [] \<longrightarrow>
        get_schema_ref h (VObj a) = KClass (obj_class (h a)))"
  by (simp add: get_schema_ref_def add_elems_joined)

theorem get_schema_ref_cases_witness:
  "get_schema_ref demo_heap (VClass UserSchema) = KClass UserSchema
   \<and> get_schema_ref demo_heap (VObj 1) = KName ''UserSchemaWithout_name_email''
   \<and> get_schema_ref demo_heap (VObj 3) = KName ''UserSchemaOnly_id''
   \<and> get_schema_ref demo_heap (VObj 4) = KName ''UserSchemaWithout_nameOnly_id''
   \<and> get_schema_ref demo_heap (VObj 0) = KClass UserSchema"
  using get_schema_ref_cases [of demo_heap UserSchema 1]
    get_schema_ref_cases [of demo_heap UserSchema 3]
    get_schema_ref_cases [of demo_heap UserSchema 4]
    get_schema_ref_cases [of demo_heap UserSchema 0]
  by (simp add: demo_heap_def plain_instance_def UserSchema_def joined_def)

text \<open>
  Claim C5, as stated: two instances of one class whose \<open>exclude\<close> collections hold the
  same names get the same key, in whatever order the names were given. The key follows the
  iteration order of the collection, so two orders of the same names give two keys.
\<close>

theorem exclude_order_counterexample:
  "obj_class (demo_heap 1) = obj_class (demo_heap 2)
   \<and> set (exclude (demo_heap 1)) = set (exclude (demo_heap 2))
   \<and> only (demo_heap 1) = only (demo_heap 2)
   \<and> get_schema_ref demo_heap (VObj 1) \<noteq> get_schema_ref demo_heap (VObj 2)"
  by (auto simp add: demo_heap_def plain_instance_def get_schema_ref_def)

text \<open>
  Claim C5, amended: two instances of one class whose \<open>exclude\<close> collections and whose
  \<open>only\<close> collections iterate over the same names in the same order get the same key,
  and so the same definition name in every registry. (For another order of the same names
  nothing is promised: the keys can differ, as above.)
\<close>

theorem same_filters_same_key:
  assumes "obj_class (h a) = obj_class (h b)"
    and "exclude (h a) = exclude (h b)"
    and "only (h a) = only (h b)"
  shows "get_schema_ref h (VObj a) = get_schema_ref h (VObj b)
         \<and> map_of r (get_schema_ref h (VObj a)) = map_of r (get_schema_ref h (VObj b))"
proof -
  have "get_schema_ref h (VObj a) = get_schema_ref h (VObj b)"
    using assms by (simp add: get_schema_ref_def Let_def)
  then show ?thesis by simp
qed

theorem same_filters_same_key_witness:
  "exclude (demo_heap 1) = [''name'', ''email'']
   \<and> exclude (demo_heap 6) = [''name'', ''email'']
   \<and> many (demo_heap 1) \<noteq> many (demo_heap 6)
   \<and> get_schema_ref demo_heap (VObj 1) = get_schema_ref demo_heap (VObj 6)
   \<and> get_schema_ref demo_heap (VObj 6) = KName ''UserSchemaWithout_name_email''
   \<and> map_of [(KName ''UserSchemaWithout_name_email'', ''UserNoContact'')]
         (get_schema_ref demo_heap (VObj 1))
       = map_of [(KName ''UserSchemaWithout_name_email'', ''UserNoContact'')]
           (get_schema_ref demo_heap (VObj 6))
   \<and> map_of [(KName ''UserSchemaWithout_name_email'', ''UserNoContact'')]
         (get_schema_ref demo_heap (VObj 6)) = Some ''UserNoContact''"
proof -
  have "obj_class (demo_heap 1) = obj_class (demo_heap 6)"
    and "exclude (demo_heap 1) = exclude (demo_heap 6)"
    and "only (demo_heap 1) = only (demo_heap 6)"
    by (simp_all add: demo_heap_def plain_instance_def)
  from same_filters_same_key [OF this,
      of "[(KName ''UserSchemaWithout_name_email'', ''UserNoContact'')]"]
  have same: "get_schema_ref demo_heap (VObj 1) = get_schema_ref demo_heap (VObj 6)"
    and names: "map_of [(KName ''UserSchemaWithout_name_email'', ''UserNoContact'')]
         (get_schema_ref demo_heap (VObj 1))
       = map_of [(KName ''UserSchemaWithout_name_email'', ''UserNoContact'')]
           (get_schema_ref demo_heap (VObj 6))"
    by simp_all
  have key: "get_schema_ref demo_heap (VObj 6) = KName ''UserSchemaWithout_name_email''"
    by (simp add: demo_heap_def plain_instance_def get_schema_ref_def UserSchema_def)
  have attrs: "exclude (demo_heap 1) = [''name'', ''email'']"
    "exclude (demo_heap 6) = [''name'', ''email'']"
    "many (demo_heap 1) \<noteq> many (demo_heap 6)"
    by (simp_all add: demo_heap_def plain_instance_def)
  from same names key attrs show ?thesis by simp
qed

section \<open>The reference resolver\<close>

lemma get_schema_ref_truthy: "key_truthy (get_schema_ref h schema)"
  by (cases schema) (simp_all add: get_schema_ref_def Let_def)

text \<open>
  Claim C7. For a literal dictionary whose \<open>type\<close> is \<open>array\<close> and which has a member
  \<open>items\<close>, the resolver resolves that member and puts the result in its place: the keys
  and their order stay, every other member (\<open>type\<close> among them) keeps its value, and an
  error of the inner resolution is the error of the call. Any other literal dictionary is
  returned as it is, and the state with it.
\<close>

theorem resolve_literal_dict:
  "(\<not> (map_of kvs (SKey ''type'') = Some (VStr ''array'') \<and> SKey ''items'' \<in> fst ` set kvs) \<longrightarrow>
      resolve_schema_dict d w (VDict kvs) dump use_instances = Inr (w, VDict kvs))
   \<and> (map_of kvs (SKey ''type'') = Some (VStr ''array'') \<and> SKey ''items'' \<in> fst ` set kvs \<longrightarrow>
        (case resolve_schema_dict d w (the (map_of kvs (SKey ''items''))) True use_instances of
           Inl e \<Rightarrow> resolve_schema_dict d w (VDict kvs) dump use_instances = Inl e
         | Inr (w', r) \<Rightarrow>
             (\<exists>kvs'. resolve_schema_dict d w (VDict kvs) dump use_instances = Inr (w', VDict kvs')
                \<and> map fst kvs' = map fst kvs
                \<and> map_of kvs' (SKey ''items'') = Some r
                \<and> (\<forall>k. k \<noteq> SKey ''items'' \<longrightarrow> map_of kvs' k = map_of kvs k))))"
proof -
  have shaped: "array_shaped kvs \<longleftrightarrow>
      (map_of kvs (SKey ''type'') = Some (VStr ''array'') \<and> SKey ''items'' \<in> fst ` set kvs)"
    by (auto simp: array_shaped_def map_of_eq_None_iff)
  have A: "\<not> array_shaped kvs \<Longrightarrow>
      resolve_schema_dict d w (VDict kvs) dump use_instances = Inr (w, VDict kvs)"
    by simp
  have keys: "array_shaped kvs \<Longrightarrow> map fst (AList.update (SKey ''items'') r kvs) = map fst kvs" for r
    unfolding shaped by (simp add: update_keys)
  have B: "array_shaped kvs \<Longrightarrow>
        (case resolve_schema_dict d w (the (map_of kvs (SKey ''items''))) True use_instances of
           Inl e \<Rightarrow> resolve_schema_dict d w (VDict kvs) dump use_instances = Inl e
         | Inr (w', r) \<Rightarrow>
             (\<exists>kvs'. resolve_schema_dict d w (VDict kvs) dump use_instances = Inr (w', VDict kvs')
                \<and> map fst kvs' = map fst kvs
                \<and> map_of kvs' (SKey ''items'') = Some r
                \<and> (\<forall>k. k \<noteq> SKey ''items'' \<longrightarrow> map_of kvs' k = map_of kvs k)))"
    using keys by (auto split: sum.splits simp: update_conv')
  show ?thesis
    unfolding shaped [symmetric] using A B by blast
qed


theorem resolve_literal_dict_witness:
  "resolve_schema_dict demo_deps user_world
     (VDict [(SKey ''type'', VStr ''array''), (SKey ''items'', VClass UserSchema),
             (SKey ''description'', VStr ''users'')]) True False
   = Inr (user_world,
       VDict [(SKey ''type'', VStr ''array''),
              (SKey ''items'', VDict [(SKey ''$ref'', VStr ''#/definitions/User'')]),
              (SKey ''description'', VStr ''users'')])
   \<and> resolve_schema_dict demo_deps user_world (VDict [(SKey ''type'', VStr ''object'')]) True False
     = Inr (user_world, VDict [(SKey ''type'', VStr ''object'')])"
  using resolve_literal_dict [of "[(SKey ''type'', VStr ''array''), (SKey ''items'', VClass UserSchema),
             (SKey ''description'', VStr ''users'')]" demo_deps user_world True False]
    resolve_literal_dict [of "[(SKey ''type'', VStr ''object'')]" demo_deps user_world True False]
  by (simp add: array_shaped_def resolve_reference_def resolve_schema_cls_def UserSchema_def
      get_schema_ref_def the_refs_def user_world_def)

text \<open>
  Claim C6. A reference to a schema (a schema class, an instance, or a name that the class
  registry knows) whose identity key is not in the registry resolves to the descriptor that
  the converter gives for the schema itself, and the registry, the definitions and the
  store after the call are those before it: only the call of the converter is recorded.
\<close>

theorem resolve_unregistered_inline:
  assumes "\<not> is_dict schema"
    and "resolve_schema_cls d (heap w) schema = Inr c"
    and "map_of (the_refs w) (get_schema_ref (heap w) schema) = None"
  shows "\<exists>w'. resolve_schema_dict d w schema dump use_instances =
            Inr (w', schema2jsonschema d w (if is_instance schema then schema else VClass c)
                       (Some dump) None)
          \<and> refs w' = refs w \<and> definitions w' = definitions w \<and> heap w' = heap w"
proof -
  have "resolve_schema_dict d w schema dump use_instances =
        resolve_reference d w schema dump use_instances"
    using assms(1) by (cases schema) simp_all
  then show ?thesis
    using assms(2,3) get_schema_ref_truthy [of "heap w" schema]
    by (auto simp: resolve_reference_def Let_def)
qed

theorem resolve_unregistered_inline_witness:
  "resolve_schema_dict demo_deps demo_world (VClass UserSchema) True False =
     Inr (demo_world\<lparr>calls := [CallSchema2jsonschema (VClass UserSchema)]\<rparr>,
          VDict [(SKey ''type'', VStr ''object'')])
   \<and> refs (demo_world\<lparr>calls := [CallSchema2jsonschema (VClass UserSchema)]\<rparr>) = refs demo_world"
proof -
  have 1: "\<not> is_dict (VClass UserSchema)" by simp
  have 2: "resolve_schema_cls demo_deps (heap demo_world) (VClass UserSchema) = Inr UserSchema"
    by (simp add: resolve_schema_cls_def UserSchema_def)
  have 3: "map_of (the_refs demo_world) (get_schema_ref (heap demo_world) (VClass UserSchema)) = None"
    by (simp add: the_refs_def demo_world_def)
  from resolve_unregistered_inline [OF 1 2 3, of True False]
  show ?thesis
    by (simp add: resolve_reference_def resolve_schema_cls_def UserSchema_def
      get_schema_ref_def the_refs_def demo_world_def demo_deps_def)
qed

text \<open>
  Claim C2. After \<open>UserSchema\<close> has been registered under the name \<open>User\<close>, the class
  and a plain instance resolve to the pointer \<open>#/definitions/User\<close>, and an instance with
  \<^verbatim>\<open>many=True\<close> to an array of it. The name string \<open>UserSchema\<close> does not: its
  identity key is computed from the string itself and is the class \<^verbatim>\<open>str\<close>, which is
  never registered, so the resolver converts the class inline, although the docstring of
  \<^verbatim>\<open>schema_path_helper\<close> shows \<^verbatim>\<open>schema: UserSchema\<close> resolved to the pointer.
\<close>

theorem name_string_resolves_inline:
  "schema_definition_helper (spec_definition 0 demo_deps) demo_deps demo_world ''User''
         (VClass UserSchema) = Some (Inr (user_world, VDict [(SKey ''type'', VStr ''object'')]))
   \<and> get_class demo_deps (VStr ''UserSchema'') = Some UserSchema
   \<and> resolve_schema_dict demo_deps user_world (VClass UserSchema) True False =
       Inr (user_world, VDict [(SKey ''$ref'', VStr ''#/definitions/User'')])
   \<and> resolve_schema_dict demo_deps user_world (VObj 0) True False =
       Inr (user_world, VDict [(SKey ''$ref'', VStr ''#/definitions/User'')])
   \<and> resolve_schema_dict demo_deps user_world (VObj 5) True False =
       Inr (user_world, VDict [(SKey ''type'', VStr ''array''),
              (SKey ''items'', VDict [(SKey ''$ref'', VStr ''#/definitions/User'')])])
   \<and> get_schema_ref (heap user_world) (VStr ''UserSchema'') = KClass (Builtin ''str'')
   \<and> resolve_schema_dict demo_deps user_world (VStr ''UserSchema'') True False =
       Inr (user_world\<lparr>calls := calls user_world @ [CallSchema2jsonschema (VClass UserSchema)]\<rparr>,
            VDict [(SKey ''type'', VStr ''object'')])"
  by (simp add: schema_definition_helper_def get_schema_ref_def get_schema_instance_def
      UserSchema_def demo_world_def demo_deps_def the_refs_def user_world_def plain_instance_def
      resolve_reference_def resolve_schema_cls_def demo_heap_def)


section \<open>The operation rewriter\<close>

lemma sor_skip:
  "\<not> is_dict operation \<Longrightarrow>
   schema_operation_resolver d w ((verb, operation) # ops) =
     (case schema_operation_resolver d w ops of
        Inl e \<Rightarrow> Inl e
      | Inr (w2, rest') \<Rightarrow> Inr (w2, (verb, operation) # rest'))"
  by (cases operation) auto

lemma sor_error:
  "schema_operation_resolver d w ops = Inl e \<longleftrightarrow>
   schema_operation_resolver d w (filter (\<lambda>kv. is_dict (snd kv)) ops) = Inl e"
proof (induction ops arbitrary: w)
  case Nil
  show ?case by simp
next
  case (Cons kv ops)
  obtain verb operation where kv: "kv = (verb, operation)" by (cases kv)
  show ?case
  proof (cases "is_dict operation")
    case True
    then obtain kvs where op: "operation = VDict kvs" by (cases operation) simp_all
    show ?thesis
    proof (cases "rewrite_operation d w kvs")
      case (Inl x)
      then show ?thesis using kv op by simp
    next
      case (Inr p)
      obtain w1 kvs' where "p = (w1, kvs')" by (cases p)
      with Inr show ?thesis using kv op Cons.IH [of w1]
        by (auto split: sum.splits)
    qed
  next
    case False
    have eq: "schema_operation_resolver d w (kv # ops) =
        (case schema_operation_resolver d w ops of
           Inl e \<Rightarrow> Inl e
         | Inr (w2, rest') \<Rightarrow> Inr (w2, (verb, operation) # rest'))"
      unfolding kv by (rule sor_skip [OF False])
    have flt: "filter (\<lambda>kv. is_dict (snd kv)) (kv # ops) = filter (\<lambda>kv. is_dict (snd kv)) ops"
      using kv False by simp
    show ?thesis unfolding eq flt using Cons.IH [of w]
      by (auto split: sum.splits)
  qed
qed

lemma sor_result:
  "schema_operation_resolver d w ops = Inr (w', ops') \<Longrightarrow>
     map fst ops' = map fst ops
     \<and> (\<forall>i<length ops. \<not> is_dict (snd (ops ! i)) \<longrightarrow> ops' ! i = ops ! i)
     \<and> schema_operation_resolver d w (filter (\<lambda>kv. is_dict (snd kv)) ops) =
         Inr (w', filter (\<lambda>kv. is_dict (snd kv)) ops')"
proof (induction ops arbitrary: w ops')
  case Nil
  then show ?case by simp
next
  case (Cons kv ops)
  obtain verb operation where kv: "kv = (verb, operation)" by (cases kv)
  show ?case
  proof (cases "is_dict operation")
    case True
    then obtain kvs where op: "operation = VDict kvs" by (cases operation) simp_all
    from Cons.prems kv op obtain w1 kvs' rest' where
      1: "rewrite_operation d w kvs = Inr (w1, kvs')" and
      2: "schema_operation_resolver d w1 ops = Inr (w', rest')" and
      3: "ops' = (verb, VDict kvs') # rest'"
      by (auto split: sum.splits)
    from Cons.IH [OF 2] show ?thesis
      using kv op 1 2 3 by (auto simp: nth_Cons split: nat.splits)
  next
    case False
    have eq: "schema_operation_resolver d w (kv # ops) =
        (case schema_operation_resolver d w ops of
           Inl e \<Rightarrow> Inl e
         | Inr (w2, rest') \<Rightarrow> Inr (w2, (verb, operation) # rest'))"
      unfolding kv by (rule sor_skip [OF False])
    from Cons.prems [unfolded eq] obtain rest' where
      2: "schema_operation_resolver d w ops = Inr (w', rest')" and
      3: "ops' = (verb, operation) # rest'"
      by (auto split: sum.splits)
    have flt: "filter (\<lambda>kv. is_dict (snd kv)) (kv # ops) = filter (\<lambda>kv. is_dict (snd kv)) ops"
      using kv False by simp
    from Cons.IH [OF 2] show ?thesis
      unfolding flt using kv False 3 by (auto simp: nth_Cons split: nat.splits)
  qed
qed

text \<open>
  Claim C9. Entries of the operations dictionary whose value is no dictionary are skipped:
  the rewriter fails with an error exactly when it fails with that error on the
  dictionary-valued entries alone; when it returns, the keys and their order are as before,
  every entry whose value is no dictionary is where and what it was, and the
  dictionary-valued entries and the final state are what the rewriter gives for them alone.
\<close>

theorem non_mapping_operations_skipped:
  "(schema_operation_resolver d w ops = Inl e \<longleftrightarrow>
      schema_operation_resolver d w (filter (\<lambda>kv. is_dict (snd kv)) ops) = Inl e)
   \<and> (schema_operation_resolver d w ops = Inr (w', ops') \<longrightarrow>
        map fst ops' = map fst ops
        \<and> (\<forall>i<length ops. \<not> is_dict (snd (ops ! i)) \<longrightarrow> ops' ! i = ops ! i)
        \<and> schema_operation_resolver d w (filter (\<lambda>kv. is_dict (snd kv)) ops) =
            Inr (w', filter (\<lambda>kv. is_dict (snd kv)) ops'))"
  using sor_error [of d w ops e] sor_result [of d w ops w' ops'] by blast

lemma demo_run: "schema_operation_resolver demo_deps user_world demo_operations =
     Inr (user_world, demo_operations_rewritten)"
  by (simp add: demo_operations_def demo_operations_rewritten_def rewrite_operation_def
      rewrite_responses.simps rewrite_response_def resolve_reference_def resolve_schema_cls_def
      resolve_parameters_def UserSchema_def get_schema_ref_def the_refs_def user_world_def)

theorem non_mapping_operations_skipped_witness:
  "schema_operation_resolver demo_deps user_world demo_operations =
     Inr (user_world, demo_operations_rewritten)
   \<and> demo_operations_rewritten ! 1 = (SKey ''x-note'', VStr ''not an operation'')
   \<and> demo_operations_rewritten ! 3 = (SKey ''x-list'', VList [VInt 1])
   \<and> schema_operation_resolver demo_deps user_world
        (filter (\<lambda>kv. is_dict (snd kv)) demo_operations) =
       Inr (user_world, filter (\<lambda>kv. is_dict (snd kv)) demo_operations_rewritten)"
proof -
  have run: "schema_operation_resolver demo_deps user_world demo_operations =
     Inr (user_world, demo_operations_rewritten)"
    by (rule demo_run)
  have nth: "demo_operations ! 1 = (SKey ''x-note'', VStr ''not an operation'')"
    "demo_operations ! 3 = (SKey ''x-list'', VList [VInt 1])"
    by (simp_all add: demo_operations_def)
  have len: "length demo_operations = 4"
    by (simp add: demo_operations_def)
  from non_mapping_operations_skipped [of demo_deps user_world demo_operations AttributeError
      user_world demo_operations_rewritten] run
  have *: "(\<forall>i<length demo_operations. \<not> is_dict (snd (demo_operations ! i)) \<longrightarrow>
             demo_operations_rewritten ! i = demo_operations ! i)"
    and **: "schema_operation_resolver demo_deps user_world
        (filter (\<lambda>kv. is_dict (snd kv)) demo_operations) =
       Inr (user_world, filter (\<lambda>kv. is_dict (snd kv)) demo_operations_rewritten)"
    by blast+
  from * [rule_format, of 1] * [rule_format, of 3] nth len
  have "demo_operations_rewritten ! 1 = (SKey ''x-note'', VStr ''not an operation'')"
    "demo_operations_rewritten ! 3 = (SKey ''x-list'', VList [VInt 1])"
    by simp_all
  with run ** show ?thesis by simp
qed


section \<open>Discovery: what a run may change\<close>

lemma discovery_step_refl: "discovery_step X w w"
  by (simp add: discovery_step_def)

lemma discovery_step_trans:
  assumes 1: "discovery_step X w w'" and 2: "discovery_step Y w' w''"
  shows "discovery_step (X \<union> Y) w w''"
proof -
  have F: "\<forall>a<next_addr w. heap w'' a = heap w a"
    using 1 2 by (auto simp: discovery_step_def)
  have M: "\<forall>a. heap w'' a \<noteq> heap w a \<longrightarrow> \<not> many (heap w'' a)"
    using 1 2 unfolding discovery_step_def by metis
  have N: "next_addr w \<le> next_addr w''"
    using 1 2 by (auto simp: discovery_step_def)
  have R: "schema_name_resolver w'' = schema_name_resolver w"
    using 1 2 by (auto simp: discovery_step_def)
  have K: "\<forall>k v. k \<notin> X \<union> Y \<longrightarrow> map_of (the_refs w) k = Some v \<longrightarrow> map_of (the_refs w'') k = Some v"
    using 1 2 by (auto simp: discovery_step_def)
  have Q: "\<forall>k v. k \<notin> X \<union> Y \<longrightarrow> map_of (the_refs w) k = None \<longrightarrow> map_of (the_refs w'') k = Some v \<longrightarrow>
            (\<exists>r. schema_name_resolver w = Some r \<and> r k = Some v \<and> v \<noteq> [])"
  proof (intro allI impI)
    fix k v
    assume k: "k \<notin> X \<union> Y" and n: "map_of (the_refs w) k = None"
      and s: "map_of (the_refs w'') k = Some v"
    show "\<exists>r. schema_name_resolver w = Some r \<and> r k = Some v \<and> v \<noteq> []"
    proof (cases "map_of (the_refs w') k")
      case None
      with 2 k s have "\<exists>r. schema_name_resolver w' = Some r \<and> r k = Some v \<and> v \<noteq> []"
        by (auto simp: discovery_step_def)
      with 1 show ?thesis by (auto simp: discovery_step_def)
    next
      case (Some v')
      with 2 k have "map_of (the_refs w'') k = Some v'"
        by (auto simp: discovery_step_def)
      with s have "v' = v" by simp
      with 1 k n Some show ?thesis by (auto simp: discovery_step_def)
    qed
  qed
  have D: "distinct (map fst (the_refs w)) \<longrightarrow> distinct (map fst (the_refs w''))"
    using 1 2 by (auto simp: discovery_step_def)
  from 1 obtain cs1 where cs1: "calls w' = calls w @ cs1"
    "\<forall>name s. CallDefinition name s \<in> set cs1 \<longrightarrow> (\<exists>c. s = VObj c \<and> \<not> many (heap w' c))"
    unfolding discovery_step_def by blast
  from 2 obtain cs2 where cs2: "calls w'' = calls w' @ cs2"
    "\<forall>name s. CallDefinition name s \<in> set cs2 \<longrightarrow> (\<exists>c. s = VObj c \<and> \<not> many (heap w'' c))"
    unfolding discovery_step_def by blast
  have M2: "\<And>c. \<not> many (heap w' c) \<Longrightarrow> \<not> many (heap w'' c)"
    using 2 unfolding discovery_step_def by metis
  have "\<forall>name s. CallDefinition name s \<in> set (cs1 @ cs2) \<longrightarrow> (\<exists>c. s = VObj c \<and> \<not> many (heap w'' c))"
    using cs1(2) cs2(2) M2 by (metis Un_iff set_append)
  moreover have "calls w'' = calls w @ (cs1 @ cs2)"
    using cs1(1) cs2(1) by simp
  ultimately have C: "\<exists>cs. calls w'' = calls w @ cs
            \<and> (\<forall>name s. CallDefinition name s \<in> set cs \<longrightarrow> (\<exists>c. s = VObj c \<and> \<not> many (heap w'' c)))"
    by blast
  show ?thesis
    unfolding discovery_step_def using F M N R K Q D C by blast
qed

lemma discovery_step_trans0:
  "discovery_step {} w w' \<Longrightarrow> discovery_step {} w' w'' \<Longrightarrow> discovery_step {} w w''"
  using discovery_step_trans [of "{}" w w' "{}" w''] by simp

lemma discovery_step_bind:
  assumes "discovery_step {k} w w'"
    and "map_of (the_refs w) k = None"
    and "map_of (the_refs w') k = Some v"
    and "schema_name_resolver w = Some r" and "r k = Some v" and "v \<noteq> []"
  shows "discovery_step {} w w'"
proof -
  have K: "\<forall>k' v'. k' \<notin> {} \<longrightarrow> map_of (the_refs w) k' = Some v' \<longrightarrow> map_of (the_refs w') k' = Some v'"
    using assms(1,2) unfolding discovery_step_def
    by (metis option.distinct(1) singletonD)
  have Q: "\<forall>k' v'. k' \<notin> {} \<longrightarrow> map_of (the_refs w) k' = None \<longrightarrow> map_of (the_refs w') k' = Some v' \<longrightarrow>
            (\<exists>r. schema_name_resolver w = Some r \<and> r k' = Some v' \<and> v' \<noteq> [])"
  proof (intro allI impI)
    fix k' v'
    assume n: "map_of (the_refs w) k' = None" and s: "map_of (the_refs w') k' = Some v'"
    show "\<exists>r. schema_name_resolver w = Some r \<and> r k' = Some v' \<and> v' \<noteq> []"
    proof (cases "k' = k")
      case True
      with assms s show ?thesis by simp
    next
      case False
      with assms(1) n s show ?thesis unfolding discovery_step_def by blast
    qed
  qed
  show ?thesis
    using assms(1) K Q unfolding discovery_step_def by blast
qed

lemma get_schema_ref_copy:
  "obj_class (h' c) = obj_class (h b) \<Longrightarrow> exclude (h' c) = exclude (h b) \<Longrightarrow>
   only (h' c) = only (h b) \<Longrightarrow> get_schema_ref h' (VObj c) = get_schema_ref h (VObj b)"
  by (simp add: get_schema_ref_def Let_def)

lemma before_definition_step:
  assumes "before_definition w b k = (c, w2)"
  shows "discovery_step {} w w2" and "\<not> many (heap w2 c)"
    and "get_schema_ref (heap w2) (VObj c) = get_schema_ref (heap w) (VObj b)"
    and "refs w2 = refs w" and "definitions w2 = definitions w"
    and "obj_fields (heap w2 c) = obj_fields (heap w b)"
proof -
  show "discovery_step {} w w2"
    using assms
    by (auto simp: before_definition_def copy_copy_def set_many_def discovery_step_def
        the_refs_def Let_def split: if_splits)
  show "\<not> many (heap w2 c)"
    using assms
    by (auto simp: before_definition_def copy_copy_def set_many_def Let_def split: if_splits)
  show "get_schema_ref (heap w2) (VObj c) = get_schema_ref (heap w) (VObj b)"
    using assms
    by (intro get_schema_ref_copy)
      (auto simp: before_definition_def copy_copy_def set_many_def Let_def split: if_splits)
  show "refs w2 = refs w" and "definitions w2 = definitions w"
    and "obj_fields (heap w2 c) = obj_fields (heap w b)"
    using assms
    by (auto simp: before_definition_def copy_copy_def set_many_def Let_def split: if_splits)
qed

lemma register_nested_unfold:
  "register_nested defn w b k =
     (if key_truthy k then
        (case refs w of
           None \<Rightarrow> Some (Inl KeyError)
         | Some plug_refs \<Rightarrow>
            (if map_of plug_refs k = None then
               (case schema_name_resolver w of
                  None \<Rightarrow> Some (Inl TypeError)
                | Some resolver \<Rightarrow>
                    (if name_truthy (resolver k)
                     then defn (snd (before_definition w b k)) (the (resolver k))
                            (VObj (fst (before_definition w b k)))
                     else Some (Inr (snd (before_definition w b k)))))
             else Some (Inr w)))
      else Some (Inr w))"
  by (simp add: register_nested_def before_definition_def Let_def split_def
      split: option.splits)

lemma register_nested_step:
  assumes ok: "defn_ok defn"
    and run: "register_nested defn w b (get_schema_ref (heap w) (VObj b)) = Some (Inr w')"
  shows "discovery_step {} w w'"
proof -
  let ?k = "get_schema_ref (heap w) (VObj b)"
  obtain c w2 where bd: "before_definition w b ?k = (c, w2)"
    by (cases "before_definition w b ?k")
  note facts = before_definition_step [OF bd]
  show ?thesis
  proof (cases "\<exists>rs r. refs w = Some rs \<and> map_of rs ?k = None
      \<and> schema_name_resolver w = Some r \<and> name_truthy (r ?k)")
    case False
    then have "w' = w \<or> w' = w2"
      using run bd unfolding register_nested_unfold
      by (auto split: if_splits option.splits)
    then show ?thesis
      using facts(1) discovery_step_refl by blast
  next
    case True
    then obtain rs r where rs: "refs w = Some rs" "map_of rs ?k = None"
      and r: "schema_name_resolver w = Some r" "name_truthy (r ?k)"
      by blast
    from r(2) obtain v where v: "r ?k = Some v" "v \<noteq> []"
      by (cases "r ?k") simp_all
    have call: "defn w2 v (VObj c) = Some (Inr w')"
      using run bd rs r v get_schema_ref_truthy [of "heap w" "VObj b"]
      unfolding register_nested_unfold by simp
    from ok call facts(2) have
      st: "discovery_step {get_schema_ref (heap w2) (VObj c)} w2 w'" and
      bound: "map_of (the_refs w') (get_schema_ref (heap w2) (VObj c)) = Some v"
      unfolding defn_ok_def by blast+
    have r2: "schema_name_resolver w2 = Some r"
      using facts(1) r(1) by (simp add: discovery_step_def)
    have none2: "map_of (the_refs w2) ?k = None"
      using facts(4) rs by (simp add: the_refs_def)
    have "discovery_step {} w2 w'"
      using discovery_step_bind [OF st [unfolded facts(3)] none2 bound [unfolded facts(3)] r2 v] .
    with facts(1) show ?thesis
      by (rule discovery_step_trans0)
  qed
qed

lemma inspect_field_step:
  assumes ok: "defn_ok defn" and run: "inspect_field defn w item = Some (Inr w')"
  shows "discovery_step {} w w'"
proof (cases "snd item")
  case Plain
  with run have "w' = w" by (simp add: inspect_field_def)
  then show ?thesis by (simp add: discovery_step_refl)
next
  case (Nested b)
  with run have "register_nested defn w b (get_schema_ref (heap w) (VObj b)) = Some (Inr w')"
    by (simp add: inspect_field_def)
  with ok show ?thesis by (rule register_nested_step)
next
  case (List_field container)
  with run have "w' = w" by (simp add: inspect_field_def split: if_splits)
  then show ?thesis by (simp add: discovery_step_refl)
qed

lemma inspect_fields_step:
  assumes ok: "defn_ok defn"
  shows "inspect_fields defn w items = Some (Inr w') \<Longrightarrow> discovery_step {} w w'"
proof (induction items arbitrary: w)
  case Nil
  then show ?case by (simp add: discovery_step_refl)
next
  case (Cons item rest)
  from Cons.prems obtain w1 where
    1: "inspect_field defn w item = Some (Inr w1)" and
    2: "inspect_fields defn w1 rest = Some (Inr w')"
    by (auto split: option.splits sum.splits)
  from inspect_field_step [OF ok 1] Cons.IH [OF 2] show ?case
    by (rule discovery_step_trans0)
qed

lemma inspect_schema_step:
  assumes ok: "defn_ok defn"
    and run: "inspect_schema_for_auto_referencing defn w a = Some (Inr w')"
  shows "discovery_step {} w w'"
proof -
  let ?w1 = "if refs w = None then w\<lparr>refs := Some []\<rparr> else w"
  have "discovery_step {} w ?w1"
    by (simp add: discovery_step_def the_refs_def)
  moreover have "inspect_fields defn ?w1 (obj_fields (heap ?w1 a)) = Some (Inr w')"
  proof (cases "refs w = None")
    case True
    with run show ?thesis
      by (simp add: inspect_schema_for_auto_referencing_def Let_def split: if_splits)
  next
    case False
    with run show ?thesis
      by (simp add: inspect_schema_for_auto_referencing_def Let_def split: if_splits)
  qed
  then have "discovery_step {} ?w1 w'"
    by (rule inspect_fields_step [OF ok])
  ultimately show ?thesis
    by (rule discovery_step_trans0)
qed

lemma helper_instance_unfold:
  "schema_definition_helper defn d w name (VObj c) =
     (if schema_name_resolver w \<noteq> None
      then (case inspect_schema_for_auto_referencing defn (after_conversion w name c) c of
              None \<Rightarrow> None
            | Some (Inl e) \<Rightarrow> Some (Inl e)
            | Some (Inr w4) \<Rightarrow>
                Some (Inr (w4, schema2jsonschema d (bound_world w name c) (VObj c) None (Some name))))
      else Some (Inr (after_conversion w name c,
                      schema2jsonschema d (bound_world w name c) (VObj c) None (Some name))))"
  unfolding schema_definition_helper_def get_schema_instance_def after_conversion_def
    bound_world_def
  by (simp add: Let_def)

lemma after_conversion_step:
  "discovery_step {get_schema_ref (heap w) (VObj c)} w (after_conversion w name c)"
  by (simp add: discovery_step_def after_conversion_def the_refs_def update_conv'
      distinct_update)

lemma after_conversion_bound:
  "map_of (the_refs (after_conversion w name c)) (get_schema_ref (heap w) (VObj c)) = Some name"
  by (simp add: after_conversion_def the_refs_def update_conv')

lemma helper_instance_step:
  assumes ok: "defn_ok defn"
    and run: "schema_definition_helper defn d w name (VObj c) = Some (Inr (w', js))"
  shows "discovery_step {get_schema_ref (heap w) (VObj c)} w w'"
    and "map_of (the_refs w') (get_schema_ref (heap w) (VObj c)) = Some name"
    and "js = schema2jsonschema d (bound_world w name c) (VObj c) None (Some name)"
    and "\<exists>cs. calls w' = calls w @ CallSchema2jsonschema (VObj c) # cs"
proof -
  let ?k = "get_schema_ref (heap w) (VObj c)"
  let ?w3 = "after_conversion w name c"
  have st: "discovery_step {} ?w3 w'"
  proof (cases "schema_name_resolver w = None")
    case True
    with run have "w' = ?w3" by (simp add: helper_instance_unfold)
    then show ?thesis by (simp add: discovery_step_refl)
  next
    case False
    with run have "inspect_schema_for_auto_referencing defn ?w3 c = Some (Inr w')"
      by (auto simp: helper_instance_unfold split: option.splits sum.splits)
    with ok show ?thesis by (rule inspect_schema_step)
  qed
  from discovery_step_trans [OF after_conversion_step st]
  show "discovery_step {?k} w w'" by simp
  from st after_conversion_bound [of w name c]
  show "map_of (the_refs w') ?k = Some name"
    unfolding discovery_step_def by blast
  show "js = schema2jsonschema d (bound_world w name c) (VObj c) None (Some name)"
    using run by (auto simp: helper_instance_unfold split: if_splits option.splits sum.splits)
  from st obtain cs where "calls w' = calls ?w3 @ cs"
    unfolding discovery_step_def by blast
  then show "\<exists>cs. calls w' = calls w @ CallSchema2jsonschema (VObj c) # cs"
    by (simp add: after_conversion_def)
qed

lemma spec_definition_ok: "defn_ok (spec_definition n d)"
proof (induction n)
  case 0
  show ?case by (simp add: defn_ok_def)
next
  case (Suc n)
  show ?case
    unfolding defn_ok_def
  proof (intro allI impI)
    fix w name c w'
    assume run: "spec_definition (Suc n) d w name (VObj c) = Some (Inr w')"
      and many: "\<not> many (heap w c)"
    let ?w0 = "w\<lparr>calls := calls w @ [CallDefinition name (VObj c)]\<rparr>"
    let ?k = "get_schema_ref (heap w) (VObj c)"
    from run obtain w4 js where
      h: "schema_definition_helper (spec_definition n d) d ?w0 name (VObj c) = Some (Inr (w4, js))"
      and w': "w' = w4\<lparr>definitions := AList.update name js (definitions w4)\<rparr>"
      by (auto split: option.splits sum.splits)
    have st0: "discovery_step {} w ?w0"
      using many by (simp add: discovery_step_def the_refs_def)
    from helper_instance_step(1,2) [OF Suc.IH h]
    have st1: "discovery_step {?k} ?w0 w4" and b1: "map_of (the_refs w4) ?k = Some name"
      by simp_all
    have st2: "discovery_step {} w4 w'"
      unfolding w' by (simp add: discovery_step_def the_refs_def)
    from discovery_step_trans [OF discovery_step_trans [OF st0 st1] st2]
    have "discovery_step {?k} w w'" by simp
    moreover have "map_of (the_refs w') ?k = Some name"
      using b1 unfolding w' by (simp add: the_refs_def)
    ultimately show "discovery_step {?k} w w' \<and> map_of (the_refs w') ?k = Some name"
      by simp
  qed
qed

lemmas demo_simps =
  schema_definition_helper_def get_schema_ref_def get_schema_instance_def
  inspect_schema_for_auto_referencing_def inspect_field_def register_nested_def
  copy_copy_def set_many_def the_refs_def
  demo_world_def demo_deps_def demo_heap_def plain_instance_def chain_world_def
  UserSchema_def ASchema_def BSchema_def CSchema_def object_descriptor_def

lemma chain_run:
  "schema_definition_helper (spec_definition (Suc (Suc 0)) demo_deps) demo_deps chain_world ''A''
     (VObj 10) = Some (Inr (chain_registered, object_descriptor))"
  by (simp add: demo_simps chain_registered_def Let_def)

section \<open>Discovery: a naming policy that declines\<close>

lemma declined_key_stays_unregistered:
  assumes run: "inspect_schema_for_auto_referencing (spec_definition n d) w a = Some (Inr w')"
    and r: "schema_name_resolver w = Some r" and decl: "\<not> name_truthy (r k)"
    and none: "map_of (the_refs w) k = None"
  shows "map_of (the_refs w') k = None"
proof (rule ccontr)
  assume "map_of (the_refs w') k \<noteq> None"
  then obtain v where v: "map_of (the_refs w') k = Some v" by blast
  from inspect_schema_step [OF spec_definition_ok run] none v
  have "\<exists>r. schema_name_resolver w = Some r \<and> r k = Some v \<and> v \<noteq> []"
    unfolding discovery_step_def by blast
  with r decl show False by auto
qed

text \<open>
  Claim C8. When the loop body meets a nested-schema field whose schema is not registered
  and the naming policy returns a false-y value for its key, the body returns without an
  error; the registry and the definitions are as before and no existing object is changed;
  a reference to the nested schema then resolves to the converter's inline descriptor;
  and no completed discovery from this state registers the key.
\<close>

theorem declined_nested_not_registered:
  assumes r: "schema_name_resolver w = Some r"
    and decl: "\<not> name_truthy (r (get_schema_ref (heap w) (VObj b)))"
    and rs: "refs w = Some rs"
    and none: "map_of rs (get_schema_ref (heap w) (VObj b)) = None"
    and alloc: "b < next_addr w"
  shows "\<exists>w'. inspect_field defn w (field_name, Nested b) = Some (Inr w')
           \<and> refs w' = refs w \<and> definitions w' = definitions w
           \<and> (\<forall>a<next_addr w. heap w' a = heap w a)
           \<and> (\<exists>w''. resolve_schema_dict d w' (VObj b) dump use_instances =
                  Inr (w'', schema2jsonschema d w' (VObj b) (Some dump) None))
           \<and> (\<forall>n a w2. inspect_schema_for_auto_referencing (spec_definition n d) w a
                          = Some (Inr w2) \<longrightarrow>
                  map_of (the_refs w2) (get_schema_ref (heap w) (VObj b)) = None)"
proof -
  let ?k = "get_schema_ref (heap w) (VObj b)"
  obtain c w2 where bd: "before_definition w b ?k = (c, w2)"
    by (cases "before_definition w b ?k")
  note facts = before_definition_step [OF bd]
  have run: "inspect_field defn w (field_name, Nested b) = Some (Inr w2)"
    using r decl rs none bd get_schema_ref_truthy [of "heap w" "VObj b"]
    by (simp add: inspect_field_def register_nested_unfold)
  have F: "\<forall>a<next_addr w. heap w2 a = heap w a"
    using facts(1) by (simp add: discovery_step_def)
  with alloc have hb: "heap w2 b = heap w b" by simp
  have k2: "get_schema_ref (heap w2) (VObj b) = ?k"
    using hb by (intro get_schema_ref_copy) simp_all
  have "map_of (the_refs w2) (get_schema_ref (heap w2) (VObj b)) = None"
    using k2 facts(4) rs none by (simp add: the_refs_def)
  then have inline: "\<exists>w''. resolve_schema_dict d w2 (VObj b) dump use_instances =
                  Inr (w'', schema2jsonschema d w2 (VObj b) (Some dump) None)"
    using get_schema_ref_truthy [of "heap w2" "VObj b"]
    by (auto simp: resolve_reference_def resolve_schema_cls_def Let_def)
  have glob: "\<forall>n a w3. inspect_schema_for_auto_referencing (spec_definition n d) w a
                          = Some (Inr w3) \<longrightarrow> map_of (the_refs w3) ?k = None"
    using declined_key_stays_unregistered [OF _ r decl] rs none
    by (simp add: the_refs_def)
  from run facts(4,5) F inline glob show ?thesis by blast
qed

theorem declined_nested_not_registered_witness:
  "inspect_field (spec_definition 0 demo_deps) declining_world (''b'', Nested 11) =
     Some (Inr declined_world)
   \<and> refs declined_world = Some [(KClass ASchema, ''A'')]
   \<and> resolve_schema_dict demo_deps declined_world (VObj 11) True False =
       Inr (declined_world\<lparr>calls := calls declined_world @ [CallSchema2jsonschema (VObj 11)]\<rparr>,
            object_descriptor)
   \<and> inspect_schema_for_auto_referencing (spec_definition 0 demo_deps) declining_world 10 =
       Some (Inr declined_world)
   \<and> map_of (the_refs declined_world) (KClass BSchema) = None"
proof -
  have 1: "schema_name_resolver declining_world = Some name_none"
    by (simp add: declining_world_def)
  have 2: "\<not> name_truthy (name_none (get_schema_ref (heap declining_world) (VObj 11)))"
    by (simp add: name_none_def)
  have 3: "refs declining_world = Some [(KClass ASchema, ''A'')]"
    by (simp add: declining_world_def)
  have 4: "map_of [(KClass ASchema, ''A'')] (get_schema_ref (heap declining_world) (VObj 11)) = None"
    by (simp add: demo_simps declining_world_def)
  have 5: "(11::nat) < next_addr declining_world"
    by (simp add: declining_world_def demo_world_def)
  have run: "inspect_field (spec_definition 0 demo_deps) declining_world (''b'', Nested 11) =
     Some (Inr declined_world)"
    by (simp add: demo_simps declining_world_def declined_world_def name_none_def Let_def)
  have run2: "inspect_schema_for_auto_referencing (spec_definition 0 demo_deps) declining_world 10 =
       Some (Inr declined_world)"
    by (simp add: demo_simps declining_world_def declined_world_def name_none_def Let_def)
  have res: "resolve_schema_dict demo_deps declined_world (VObj 11) True False =
       Inr (declined_world\<lparr>calls := calls declined_world @ [CallSchema2jsonschema (VObj 11)]\<rparr>,
            object_descriptor)"
    by (simp add: demo_simps declining_world_def declined_world_def resolve_reference_def
        resolve_schema_cls_def)
  from declined_nested_not_registered [OF 1 2 3 4 5,
      of "spec_definition 0 demo_deps" "''b''" demo_deps True False] run run2
  have "refs declined_world = refs declining_world"
    and "map_of (the_refs declined_world) (get_schema_ref (heap declining_world) (VObj 11)) = None"
    by auto
  moreover have "get_schema_ref (heap declining_world) (VObj 11) = KClass BSchema"
    by (simp add: demo_simps declining_world_def)
  ultimately show ?thesis
    using run run2 res 3 by simp
qed

section \<open>Registering a key twice\<close>

text \<open>
  Claim C1, as stated: a second call of the definition helper with an instance whose key is
  already registered returns before converting the schema again. The helper has no such
  test: the second call, here for another instance of the same class, binds the key to the
  new name and calls the converter again.
\<close>

theorem second_registration_counterexample:
  "schema_definition_helper (spec_definition 0 demo_deps) demo_deps demo_world ''User'' (VObj 0)
     = Some (Inr (once_world, object_descriptor))
   \<and> get_schema_ref (heap once_world) (VObj 5) = get_schema_ref (heap demo_world) (VObj 0)
   \<and> map_of (the_refs once_world) (get_schema_ref (heap once_world) (VObj 5)) = Some ''User''
   \<and> schema_definition_helper (spec_definition 0 demo_deps) demo_deps once_world ''Person'' (VObj 5)
     = Some (Inr (twice_world, object_descriptor))
   \<and> calls twice_world = calls once_world @ [CallSchema2jsonschema (VObj 5)]"
  by (simp add: demo_simps once_world_def twice_world_def)

lemma count_key:
  "distinct (map fst al) \<Longrightarrow> map_of al k = Some v \<Longrightarrow>
   length (filter (\<lambda>kv. fst kv = k) al) = 1"
proof (induction al)
  case Nil
  then show ?case by simp
next
  case (Cons x al)
  show ?case
  proof (cases "fst x = k")
    case True
    with Cons.prems(1) have "k \<notin> fst ` set al" by simp
    then have "filter (\<lambda>kv. fst kv = k) al = []"
      by (force simp: filter_empty_conv)
    with True show ?thesis by simp
  next
    case False
    with Cons show ?thesis by (cases x) auto
  qed
qed

section \<open>Discovery along a chain\<close>

lemma inspect_field_inert:
  "no_schema_field (snd item) \<Longrightarrow> inspect_field defn w item = Some (Inr w)"
  by (cases "snd item") (simp_all add: inspect_field_def)

lemma inspect_fields_inert:
  "\<forall>item\<in>set items. no_schema_field (snd item) \<Longrightarrow> inspect_fields defn w items = Some (Inr w)"
  by (induction items) (simp_all add: inspect_field_inert)

lemma inspect_fields_single:
  assumes "\<forall>item\<in>set pre. no_schema_field (snd item)"
    and "\<forall>item\<in>set post. no_schema_field (snd item)"
  shows "inspect_fields defn w (pre @ [x] @ post) = inspect_field defn w x"
  using assms(1)
proof (induction pre)
  case Nil
  show ?case
    using inspect_fields_inert [OF assms(2)]
    by (simp split: option.splits sum.splits)
next
  case (Cons p pre)
  then show ?case by (simp add: inspect_field_inert)
qed

lemma helper_leaf:
  assumes "\<forall>item\<in>set (obj_fields (heap w x)). no_schema_field (snd item)"
  shows "schema_definition_helper defn d w name (VObj x) =
     Some (Inr (after_conversion w name x,
                schema2jsonschema d (bound_world w name x) (VObj x) None (Some name)))"
proof -
  have "inspect_schema_for_auto_referencing defn (after_conversion w name x) x =
        Some (Inr (after_conversion w name x))"
    if "schema_name_resolver w \<noteq> None"
    using that assms
    by (simp add: inspect_schema_for_auto_referencing_def after_conversion_def
        inspect_fields_inert)
  then show ?thesis
    by (simp add: helper_instance_unfold)
qed

lemma helper_single_nested:
  assumes "obj_fields (heap w x) = pre @ [(f, Nested y)] @ post"
    and "\<forall>item\<in>set pre. no_schema_field (snd item)"
    and "\<forall>item\<in>set post. no_schema_field (snd item)"
    and "schema_name_resolver w = Some r"
  shows "schema_definition_helper defn d w name (VObj x) =
     (case register_nested defn (after_conversion w name x) y (get_schema_ref (heap w) (VObj y)) of
        None \<Rightarrow> None
      | Some (Inl e) \<Rightarrow> Some (Inl e)
      | Some (Inr w4) \<Rightarrow>
          Some (Inr (w4, schema2jsonschema d (bound_world w name x) (VObj x) None (Some name))))"
proof -
  have "inspect_schema_for_auto_referencing defn (after_conversion w name x) x =
        register_nested defn (after_conversion w name x) y (get_schema_ref (heap w) (VObj y))"
    using assms inspect_fields_single [OF assms(2,3), of defn "after_conversion w name x" "(f, Nested y)"]
    by (simp add: inspect_schema_for_auto_referencing_def after_conversion_def inspect_field_def)
  with assms(4) show ?thesis
    by (simp add: helper_instance_unfold)
qed

lemma register_nested_calls:
  assumes "refs w = Some rs" and "map_of rs k = None"
    and "schema_name_resolver w = Some r" and "r k = Some v" and "v \<noteq> []"
    and "key_truthy k"
  shows "register_nested defn w b k =
           defn (snd (before_definition w b k)) v (VObj (fst (before_definition w b k)))"
  using assms by (simp add: register_nested_unfold)


text \<open>A nested schema without nested schemas of its own, met by the loop body.\<close>

lemma register_leaf:
  assumes rs: "refs w = Some rs" "map_of rs (get_schema_ref (heap w) (VObj c)) = None"
    and r: "schema_name_resolver w = Some r" "name_truthy (r (get_schema_ref (heap w) (VObj c)))"
    and leaf: "\<forall>item\<in>set (obj_fields (heap w c)). no_schema_field (snd item)"
  shows "\<exists>w'. register_nested (spec_definition (Suc n) d) w c (get_schema_ref (heap w) (VObj c))
                 = Some (Inr w')
          \<and> map_of (the_refs w') (get_schema_ref (heap w) (VObj c))
              = r (get_schema_ref (heap w) (VObj c))"
proof -
  let ?k = "get_schema_ref (heap w) (VObj c)"
  obtain v where v: "r ?k = Some v" "v \<noteq> []"
    using r(2) by (cases "r ?k") simp_all
  obtain c' w2 where bd: "before_definition w c ?k = (c', w2)"
    by (cases "before_definition w c ?k")
  note facts = before_definition_step [OF bd]
  let ?w0 = "w2\<lparr>calls := calls w2 @ [CallDefinition v (VObj c')]\<rparr>"
  have "\<forall>item\<in>set (obj_fields (heap ?w0 c')). no_schema_field (snd item)"
    using leaf facts(6) by simp
  from helper_leaf [OF this, of "spec_definition n d" d v]
  obtain w' where run: "spec_definition (Suc n) d w2 v (VObj c') = Some (Inr w')"
    by simp
  from spec_definition_ok [of "Suc n" d] run facts(2)
  have "map_of (the_refs w') (get_schema_ref (heap w2) (VObj c')) = Some v"
    unfolding defn_ok_def by blast
  then have "map_of (the_refs w') ?k = r ?k"
    using facts(3) v by simp
  moreover have "register_nested (spec_definition (Suc n) d) w c ?k = Some (Inr w')"
    using register_nested_calls [OF rs r(1) v get_schema_ref_truthy, of "spec_definition (Suc n) d" c]
      bd run by simp
  ultimately show ?thesis by blast
qed


text \<open>A nested schema whose only nested schema is such a leaf, met by the loop body.\<close>

lemma register_mid:
  assumes rs: "refs w = Some rs" "map_of rs (get_schema_ref (heap w) (VObj b)) = None"
      "map_of rs (get_schema_ref (heap w) (VObj c)) = None"
    and r: "schema_name_resolver w = Some r" "\<forall>k. name_truthy (r k)"
    and fb: "obj_fields (heap w b) = pb @ [(fc, Nested c)] @ qb"
      "\<forall>item\<in>set pb. no_schema_field (snd item)" "\<forall>item\<in>set qb. no_schema_field (snd item)"
    and leaf: "\<forall>item\<in>set (obj_fields (heap w c)). no_schema_field (snd item)"
    and alloc: "c < next_addr w"
    and neq: "get_schema_ref (heap w) (VObj b) \<noteq> get_schema_ref (heap w) (VObj c)"
  shows "\<exists>w'. register_nested (spec_definition (Suc (Suc n)) d) w b (get_schema_ref (heap w) (VObj b))
                 = Some (Inr w')
          \<and> map_of (the_refs w') (get_schema_ref (heap w) (VObj b))
              = r (get_schema_ref (heap w) (VObj b))
          \<and> map_of (the_refs w') (get_schema_ref (heap w) (VObj c))
              = r (get_schema_ref (heap w) (VObj c))"
proof -
  let ?kB = "get_schema_ref (heap w) (VObj b)"
  let ?kC = "get_schema_ref (heap w) (VObj c)"
  obtain v where v: "r ?kB = Some v" "v \<noteq> []"
    using r(2) [rule_format, of ?kB] by (cases "r ?kB") simp_all
  obtain b' w2 where bd: "before_definition w b ?kB = (b', w2)"
    by (cases "before_definition w b ?kB")
  note facts = before_definition_step [OF bd]
  let ?w0 = "w2\<lparr>calls := calls w2 @ [CallDefinition v (VObj b')]\<rparr>"
  let ?w3 = "after_conversion ?w0 v b'"
  have hc: "heap w2 c = heap w c"
    using facts(1) alloc by (simp add: discovery_step_def)
  have r2: "schema_name_resolver w2 = Some r"
    using facts(1) r(1) by (simp add: discovery_step_def)
  have kB0: "get_schema_ref (heap ?w0) (VObj b') = ?kB"
    using facts(3) by simp
  have kC3: "get_schema_ref (heap ?w3) (VObj c) = ?kC"
    using hc by (intro get_schema_ref_copy) (simp_all add: after_conversion_def)
  have kC0: "get_schema_ref (heap ?w0) (VObj c) = ?kC"
    using hc by (intro get_schema_ref_copy) simp_all
  have refs3: "refs ?w3 = Some (AList.update ?kB v rs)"
    using kB0 facts(4) rs(1) by (simp add: after_conversion_def the_refs_def)
  have none3: "map_of (AList.update ?kB v rs) (get_schema_ref (heap ?w3) (VObj c)) = None"
    unfolding kC3 using rs(3) neq by (simp add: update_conv')
  have r3: "schema_name_resolver ?w3 = Some r"
    using r2 by (simp add: after_conversion_def)
  have leaf3: "\<forall>item\<in>set (obj_fields (heap ?w3 c)). no_schema_field (snd item)"
    using leaf hc by (simp add: after_conversion_def)
  from register_leaf [OF refs3 none3 r3 r(2) [rule_format] leaf3, of n d]
  obtain w4 where
    run4: "register_nested (spec_definition (Suc n) d) ?w3 c ?kC = Some (Inr w4)" and
    bC: "map_of (the_refs w4) ?kC = r ?kC"
    unfolding kC3 by blast
  have f0: "obj_fields (heap ?w0 b') = pb @ [(fc, Nested c)] @ qb"
    using facts(6) fb(1) by simp
  have r0: "schema_name_resolver ?w0 = Some r"
    using r2 by simp
  from helper_single_nested [OF f0 fb(2,3) r0, of "spec_definition (Suc n) d" d v] run4
  have "schema_definition_helper (spec_definition (Suc n) d) d ?w0 v (VObj b') =
        Some (Inr (w4, schema2jsonschema d (bound_world ?w0 v b') (VObj b') None (Some v)))"
    unfolding kC0 by simp
  then obtain w' where
    run: "spec_definition (Suc (Suc n)) d w2 v (VObj b') = Some (Inr w')" and
    w': "the_refs w' = the_refs w4"
    by (simp add: the_refs_def)
  from spec_definition_ok [of "Suc (Suc n)" d] run facts(2)
  have "map_of (the_refs w') (get_schema_ref (heap w2) (VObj b')) = Some v"
    unfolding defn_ok_def by blast
  then have bB: "map_of (the_refs w') ?kB = r ?kB"
    using facts(3) v by simp
  have "register_nested (spec_definition (Suc (Suc n)) d) w b ?kB = Some (Inr w')"
    using register_nested_calls [OF rs(1,2) r(1) v get_schema_ref_truthy,
        of "spec_definition (Suc (Suc n)) d" b] bd run
    by simp
  with bB bC w' show ?thesis by simp
qed

text \<open>
  Claim C4. Let the instance \<open>a\<close> have a nested-schema field of the instance \<open>b\<close>, and
  \<open>b\<close> one of the instance \<open>c\<close>, the other fields of \<open>a\<close> and \<open>b\<close> and all fields
  of \<open>c\<close> being no schema fields; let the three identity keys differ, the keys of \<open>b\<close>
  and \<open>c\<close> be unregistered in a registry that, as a dictionary, has no key twice, and
  the naming policy return a name for every key. Then
  registering \<open>a\<close>, with fuel for two nested calls of \<open>spec.definition\<close>, returns, and
  in the registry after it the keys of \<open>b\<close> and of \<open>c\<close> each have one entry, with the
  name that the naming policy returns for the key.
\<close>

theorem chain_registered_once:
  assumes fa: "obj_fields (heap w a) = pa @ [(fb, Nested b)] @ qa"
      "\<forall>item\<in>set pa. no_schema_field (snd item)" "\<forall>item\<in>set qa. no_schema_field (snd item)"
    and fb: "obj_fields (heap w b) = pb @ [(fc, Nested c)] @ qb"
      "\<forall>item\<in>set pb. no_schema_field (snd item)" "\<forall>item\<in>set qb. no_schema_field (snd item)"
    and leaf: "\<forall>item\<in>set (obj_fields (heap w c)). no_schema_field (snd item)"
    and alloc: "a < next_addr w" "b < next_addr w" "c < next_addr w"
    and neq: "get_schema_ref (heap w) (VObj a) \<noteq> get_schema_ref (heap w) (VObj b)"
      "get_schema_ref (heap w) (VObj a) \<noteq> get_schema_ref (heap w) (VObj c)"
      "get_schema_ref (heap w) (VObj b) \<noteq> get_schema_ref (heap w) (VObj c)"
    and fresh: "map_of (the_refs w) (get_schema_ref (heap w) (VObj b)) = None"
      "map_of (the_refs w) (get_schema_ref (heap w) (VObj c)) = None"
      "distinct (map fst (the_refs w))"
    and r: "schema_name_resolver w = Some r" "\<forall>k. name_truthy (r k)"
  shows "\<exists>w' json_schema.
           schema_definition_helper (spec_definition (Suc (Suc n)) d) d w name (VObj a)
             = Some (Inr (w', json_schema))
           \<and> map_of (the_refs w') (get_schema_ref (heap w) (VObj b))
               = r (get_schema_ref (heap w) (VObj b))
           \<and> map_of (the_refs w') (get_schema_ref (heap w) (VObj c))
               = r (get_schema_ref (heap w) (VObj c))
           \<and> length (filter (\<lambda>kv. fst kv = get_schema_ref (heap w) (VObj b)) (the_refs w')) = 1
           \<and> length (filter (\<lambda>kv. fst kv = get_schema_ref (heap w) (VObj c)) (the_refs w')) = 1"
proof -
  let ?kA = "get_schema_ref (heap w) (VObj a)"
  let ?kB = "get_schema_ref (heap w) (VObj b)"
  let ?kC = "get_schema_ref (heap w) (VObj c)"
  let ?w3 = "after_conversion w name a"
  have h3: "heap ?w3 = heap w" and n3: "next_addr ?w3 = next_addr w"
    and r3: "schema_name_resolver ?w3 = Some r"
    and refs3: "refs ?w3 = Some (AList.update ?kA name (the_refs w))"
    using r(1) by (simp_all add: after_conversion_def)
  have none3: "map_of (AList.update ?kA name (the_refs w)) (get_schema_ref (heap ?w3) (VObj b)) = None"
    "map_of (AList.update ?kA name (the_refs w)) (get_schema_ref (heap ?w3) (VObj c)) = None"
    unfolding h3 using fresh(1,2) neq(1,2) by (simp_all add: update_conv')
  from register_mid [OF refs3 none3 r3 r(2), of pb fc qb n d]
  obtain w' where
    run: "register_nested (spec_definition (Suc (Suc n)) d) ?w3 b ?kB = Some (Inr w')" and
    bB: "map_of (the_refs w') ?kB = r ?kB" and bC: "map_of (the_refs w') ?kC = r ?kC"
    unfolding h3 n3 using fb leaf alloc(3) neq(3) by blast
  let ?js = "schema2jsonschema d (bound_world w name a) (VObj a) None (Some name)"
  from helper_single_nested [OF fa r(1), of "spec_definition (Suc (Suc n)) d" d name] run
  have res: "schema_definition_helper (spec_definition (Suc (Suc n)) d) d w name (VObj a)
        = Some (Inr (w', ?js))"
    by simp
  from helper_instance_step(1) [OF spec_definition_ok res] fresh(3)
  have dist: "distinct (map fst (the_refs w'))"
    by (simp add: discovery_step_def)
  obtain vB vC where "r ?kB = Some vB" "r ?kC = Some vC"
    using r(2) [rule_format, of ?kB] r(2) [rule_format, of ?kC]
    by (cases "r ?kB"; cases "r ?kC") simp_all
  with bB bC have "map_of (the_refs w') ?kB = Some vB" "map_of (the_refs w') ?kC = Some vC"
    by simp_all
  from count_key [OF dist this(1)] count_key [OF dist this(2)] res bB bC
  show ?thesis by blast
qed


theorem chain_registered_once_witness:
  "schema_definition_helper (spec_definition (Suc (Suc 0)) demo_deps) demo_deps chain_world ''A''
     (VObj 10) = Some (Inr (chain_registered, object_descriptor))
   \<and> map_of (the_refs chain_registered) (KClass BSchema) = Some ''AutoBSchema''
   \<and> map_of (the_refs chain_registered) (KClass CSchema) = Some ''AutoCSchema''
   \<and> length (filter (\<lambda>kv. fst kv = KClass BSchema) (the_refs chain_registered)) = 1
   \<and> length (filter (\<lambda>kv. fst kv = KClass CSchema) (the_refs chain_registered)) = 1"
proof -
  have fa: "obj_fields (heap chain_world 10) = [(''title'', Plain)] @ [(''b'', Nested 11)] @ []"
    and fb: "obj_fields (heap chain_world 11) = [] @ [(''c'', Nested 12)] @ [(''n'', Plain)]"
    and leaf: "\<forall>item\<in>set (obj_fields (heap chain_world 12)). no_schema_field (snd item)"
    by (simp_all add: demo_simps)
  have plain: "\<forall>item\<in>set [(''title'', Plain)]. no_schema_field (snd item)"
    "\<forall>item\<in>set ([] :: (string \<times> mm_field) list). no_schema_field (snd item)"
    "\<forall>item\<in>set [(''n'', Plain)]. no_schema_field (snd item)"
    by simp_all
  have alloc: "(10::nat) < next_addr chain_world" "(11::nat) < next_addr chain_world"
    "(12::nat) < next_addr chain_world"
    by (simp_all add: demo_simps)
  have keys: "get_schema_ref (heap chain_world) (VObj 10) = KClass ASchema"
    "get_schema_ref (heap chain_world) (VObj 11) = KClass BSchema"
    "get_schema_ref (heap chain_world) (VObj 12) = KClass CSchema"
    by (simp_all add: demo_simps)
  have neq: "get_schema_ref (heap chain_world) (VObj 10) \<noteq> get_schema_ref (heap chain_world) (VObj 11)"
    "get_schema_ref (heap chain_world) (VObj 10) \<noteq> get_schema_ref (heap chain_world) (VObj 12)"
    "get_schema_ref (heap chain_world) (VObj 11) \<noteq> get_schema_ref (heap chain_world) (VObj 12)"
    unfolding keys by (simp_all add: ASchema_def BSchema_def CSchema_def)
  have fresh: "map_of (the_refs chain_world) (get_schema_ref (heap chain_world) (VObj 11)) = None"
    "map_of (the_refs chain_world) (get_schema_ref (heap chain_world) (VObj 12)) = None"
    "distinct (map fst (the_refs chain_world))"
    by (simp_all add: the_refs_def chain_world_def demo_world_def)
  have r: "schema_name_resolver chain_world = Some name_all"
    by (simp add: chain_world_def)
  have names: "\<forall>k. name_truthy (name_all k)"
  proof
    fix k show "name_truthy (name_all k)" by (cases k) simp_all
  qed
  from chain_registered_once [OF fa plain(1,2) fb plain(2,3) leaf alloc neq fresh r names,
      of 0 demo_deps "''A''"]
  have "map_of (the_refs chain_registered) (KClass BSchema) = name_all (KClass BSchema)
      \<and> map_of (the_refs chain_registered) (KClass CSchema) = name_all (KClass CSchema)
      \<and> length (filter (\<lambda>kv. fst kv = KClass BSchema) (the_refs chain_registered)) = 1
      \<and> length (filter (\<lambda>kv. fst kv = KClass CSchema) (the_refs chain_registered)) = 1"
    unfolding keys chain_run by blast
  then show ?thesis
    using chain_run by (simp add: BSchema_def CSchema_def)
qed

section \<open>Discovery: enough fuel\<close>

text \<open>
  In a well-formed world the helper returns, with a result or with an error, when the fuel
  is at least the number of unregistered keys of existing objects, and so when it is at
  least the number of objects. More fuel does not change what a call returns.
\<close>

lemma shrinks_refl: "wf_world w \<Longrightarrow> shrinks w w"
  by (simp add: shrinks_def)

lemma shrinks_trans: "shrinks w w' \<Longrightarrow> shrinks w' w'' \<Longrightarrow> shrinks w w''"
  by (auto simp: shrinks_def)

lemma finite_keys_of: "finite (keys_of w)"
  by (simp add: keys_of_def)

lemma finite_unregistered: "finite (unregistered w)"
  by (simp add: unregistered_def finite_keys_of)

lemma before_definition_shrinks:
  assumes bd: "before_definition w b k = (c, w2)" and wf: "wf_world w" and b: "b < next_addr w"
  shows "shrinks w w2" and "c < next_addr w2"
proof -
  note facts = before_definition_step [OF bd]
  show c: "c < next_addr w2"
    using bd b
    by (auto simp: before_definition_def copy_copy_def set_many_def Let_def split: if_splits)
  have cases: "(w2 = w\<lparr>calls := calls w @ [CallResolver k]\<rparr> \<and> c = b)
      \<or> (c = next_addr w \<and> next_addr w2 = Suc (next_addr w)
          \<and> heap w2 = (heap w)(next_addr w := (heap w b)\<lparr>many := False\<rparr>)
          \<and> refs w2 = refs w)"
    using bd
    by (auto simp: before_definition_def copy_copy_def set_many_def Let_def split: if_splits)
  then show "shrinks w w2"
  proof
    assume "w2 = w\<lparr>calls := calls w @ [CallResolver k]\<rparr> \<and> c = b"
    then show ?thesis
      using wf by (simp add: shrinks_def wf_world_def unregistered_def keys_of_def the_refs_def)
  next
    assume a: "c = next_addr w \<and> next_addr w2 = Suc (next_addr w)
          \<and> heap w2 = (heap w)(next_addr w := (heap w b)\<lparr>many := False\<rparr>)
          \<and> refs w2 = refs w"
    have wf2: "wf_world w2"
      unfolding wf_world_def
    proof (intro allI impI ballI)
      fix x y
      assume x: "x < next_addr w2" and y: "y \<in> nested_addrs (obj_fields (heap w2 x))"
      show "y < next_addr w2"
      proof (cases "x = next_addr w")
        case True
        with a y have "y \<in> nested_addrs (obj_fields (heap w b))" by simp
        with wf b have "y < next_addr w" by (auto simp: wf_world_def)
        with a show ?thesis by simp
      next
        case False
        with a x have "x < next_addr w" and "heap w2 x = heap w x" by simp_all
        with wf y have "y < next_addr w" by (auto simp: wf_world_def)
        with a show ?thesis by simp
      qed
    qed
    have "keys_of w2 \<subseteq> keys_of w"
    proof
      fix k' assume "k' \<in> keys_of w2"
      then obtain x where x: "x < next_addr w2" "k' = get_schema_ref (heap w2) (VObj x)"
        by (auto simp: keys_of_def)
      show "k' \<in> keys_of w"
      proof (cases "x = next_addr w")
        case True
        with a have "get_schema_ref (heap w2) (VObj x) = get_schema_ref (heap w) (VObj b)"
          by (intro get_schema_ref_copy) simp_all
        with x b show ?thesis by (auto simp: keys_of_def)
      next
        case False
        with a x have "x < next_addr w" and "heap w2 x = heap w x" by simp_all
        then have "get_schema_ref (heap w2) (VObj x) = get_schema_ref (heap w) (VObj x)"
          by (intro get_schema_ref_copy) simp_all
        with x \<open>x < next_addr w\<close> show ?thesis by (auto simp: keys_of_def)
      qed
    qed
    with a wf2 show ?thesis
      by (auto simp: shrinks_def unregistered_def the_refs_def)
  qed
qed


lemma register_nested_shrinks:
  assumes ok: "defn_shrinks defn" and wf: "wf_world w" and b: "b < next_addr w"
    and run: "register_nested defn w b k = Some (Inr w')"
  shows "shrinks w w'"
proof -
  obtain c w2 where bd: "before_definition w b k = (c, w2)"
    by (cases "before_definition w b k")
  note facts = before_definition_step [OF bd]
  note sh = before_definition_shrinks [OF bd wf b]
  from run bd have "w' = w \<or> w' = w2 \<or> (\<exists>v. defn w2 v (VObj c) = Some (Inr w'))"
    unfolding register_nested_unfold
    by (auto split: if_splits option.splits)
  then show ?thesis
  proof (elim disjE exE)
    assume "w' = w" then show ?thesis using wf by (simp add: shrinks_refl)
  next
    assume "w' = w2" then show ?thesis using sh(1) by simp
  next
    fix v assume "defn w2 v (VObj c) = Some (Inr w')"
    with ok sh have "shrinks w2 w'"
      unfolding defn_shrinks_def shrinks_def by blast
    with sh(1) show ?thesis by (rule shrinks_trans)
  qed
qed

lemma inspect_field_shrinks:
  assumes ok: "defn_shrinks defn" and wf: "wf_world w"
    and b: "\<forall>b\<in>nested_addrs [item]. b < next_addr w"
    and run: "inspect_field defn w item = Some (Inr w')"
  shows "shrinks w w'"
proof (cases "snd item")
  case Plain
  with run have "w' = w" by (simp add: inspect_field_def)
  then show ?thesis using wf by (simp add: shrinks_refl)
next
  case (Nested y)
  then have "y \<in> nested_addrs [item]"
    by (cases item) (auto simp: nested_addrs_def)
  with b have "y < next_addr w" by blast
  moreover from run Nested
  have "register_nested defn w y (get_schema_ref (heap w) (VObj y)) = Some (Inr w')"
    by (simp add: inspect_field_def)
  ultimately show ?thesis
    using register_nested_shrinks [OF ok wf] by blast
next
  case (List_field container)
  with run have "w' = w" by (simp add: inspect_field_def split: if_splits)
  then show ?thesis using wf by (simp add: shrinks_refl)
qed

lemma nested_addrs_Cons:
  "nested_addrs (item # items) = nested_addrs [item] \<union> nested_addrs items"
  by (auto simp: nested_addrs_def)

lemma inspect_fields_shrinks:
  assumes ok: "defn_shrinks defn"
  shows "wf_world w \<Longrightarrow> \<forall>b\<in>nested_addrs items. b < next_addr w \<Longrightarrow>
         inspect_fields defn w items = Some (Inr w') \<Longrightarrow> shrinks w w'"
proof (induction items arbitrary: w)
  case Nil
  then show ?case by (simp add: shrinks_refl)
next
  case (Cons item rest)
  from Cons.prems(3) obtain w1 where
    1: "inspect_field defn w item = Some (Inr w1)" and
    2: "inspect_fields defn w1 rest = Some (Inr w')"
    by (auto split: option.splits sum.splits)
  have b1: "\<forall>b\<in>nested_addrs [item]. b < next_addr w"
    and b2: "\<forall>b\<in>nested_addrs rest. b < next_addr w"
    using Cons.prems(2) by (simp_all add: nested_addrs_Cons [of item rest])
  from inspect_field_shrinks [OF ok Cons.prems(1) b1 1]
  have s1: "shrinks w w1" .
  then have "wf_world w1" and "\<forall>b\<in>nested_addrs rest. b < next_addr w1"
    using b2 by (auto simp: shrinks_def)
  from Cons.IH [OF this 2] have "shrinks w1 w'" .
  with s1 show ?case by (rule shrinks_trans)
qed

lemma inspect_schema_shrinks:
  assumes ok: "defn_shrinks defn" and wf: "wf_world w" and a: "a < next_addr w"
    and run: "inspect_schema_for_auto_referencing defn w a = Some (Inr w')"
  shows "shrinks w w'"
proof -
  let ?w1 = "if refs w = None then w\<lparr>refs := Some []\<rparr> else w"
  have s1: "shrinks w ?w1"
    using wf by (simp add: shrinks_def wf_world_def unregistered_def keys_of_def the_refs_def)
  have run1: "inspect_fields defn ?w1 (obj_fields (heap ?w1 a)) = Some (Inr w')"
  proof (cases "refs w = None")
    case True
    with run show ?thesis
      by (simp add: inspect_schema_for_auto_referencing_def Let_def split: if_splits)
  next
    case False
    with run show ?thesis
      by (simp add: inspect_schema_for_auto_referencing_def Let_def split: if_splits)
  qed
  have wf1: "wf_world ?w1" using s1 by (simp add: shrinks_def)
  have "\<forall>b\<in>nested_addrs (obj_fields (heap ?w1 a)). b < next_addr ?w1"
    using wf a by (simp add: wf_world_def)
  from inspect_fields_shrinks [OF ok wf1 this run1] s1
  show ?thesis by (rule shrinks_trans [rotated])
qed

lemma update_key_set: "fst ` set (AList.update k v al) = insert k (fst ` set al)"
proof -
  have "set (map fst (AList.update k v al)) = insert k (set (map fst al))"
    by (auto simp: update_keys)
  then show ?thesis by simp
qed

lemma after_conversion_shrinks:
  assumes "wf_world w"
  shows "shrinks w (after_conversion w name c)"
    and "unregistered (after_conversion w name c)
           = unregistered w - {get_schema_ref (heap w) (VObj c)}"
proof -
  have dom: "fst ` set (the_refs (after_conversion w name c))
      = insert (get_schema_ref (heap w) (VObj c)) (fst ` set (the_refs w))"
  proof -
    have "the_refs (after_conversion w name c)
        = AList.update (get_schema_ref (heap w) (VObj c)) name (the_refs w)"
      by (simp add: after_conversion_def the_refs_def)
    then show ?thesis by (simp only: update_key_set)
  qed
  have keys: "keys_of (after_conversion w name c) = keys_of w"
    by (simp add: keys_of_def after_conversion_def)
  show "unregistered (after_conversion w name c)
           = unregistered w - {get_schema_ref (heap w) (VObj c)}"
    unfolding unregistered_def dom keys by blast
  then show "shrinks w (after_conversion w name c)"
    using assms by (auto simp: shrinks_def wf_world_def after_conversion_def)
qed

lemma helper_instance_shrinks:
  assumes ok: "defn_shrinks defn" and wf: "wf_world w" and c: "c < next_addr w"
    and run: "schema_definition_helper defn d w name (VObj c) = Some (Inr (w', js))"
  shows "shrinks w w'"
proof -
  let ?w3 = "after_conversion w name c"
  note s3 = after_conversion_shrinks(1) [OF wf, of name c]
  have "shrinks ?w3 w'"
  proof (cases "schema_name_resolver w = None")
    case True
    with run have "w' = ?w3" by (simp add: helper_instance_unfold)
    with s3 show ?thesis by (simp add: shrinks_def)
  next
    case False
    with run have "inspect_schema_for_auto_referencing defn ?w3 c = Some (Inr w')"
      by (auto simp: helper_instance_unfold split: option.splits sum.splits)
    moreover have "wf_world ?w3" "c < next_addr ?w3"
      using s3 c by (auto simp: shrinks_def)
    ultimately show ?thesis
      using inspect_schema_shrinks [OF ok] by blast
  qed
  with s3 show ?thesis by (rule shrinks_trans)
qed

lemma spec_definition_shrinks: "defn_shrinks (spec_definition n d)"
proof (induction n)
  case 0
  show ?case by (simp add: defn_shrinks_def)
next
  case (Suc n)
  show ?case
    unfolding defn_shrinks_def
  proof (intro allI impI)
    fix w name c w'
    assume run: "spec_definition (Suc n) d w name (VObj c) = Some (Inr w')"
      and wf: "wf_world w" and c: "c < next_addr w"
    let ?w0 = "w\<lparr>calls := calls w @ [CallDefinition name (VObj c)]\<rparr>"
    from run obtain w4 js where
      h: "schema_definition_helper (spec_definition n d) d ?w0 name (VObj c) = Some (Inr (w4, js))"
      and w': "w' = w4\<lparr>definitions := AList.update name js (definitions w4)\<rparr>"
      by (auto split: option.splits sum.splits)
    have "wf_world ?w0" "c < next_addr ?w0"
      using wf c by (simp_all add: wf_world_def)
    from helper_instance_shrinks [OF Suc.IH this h]
    have "shrinks ?w0 w4" .
    then show "shrinks w w'"
      unfolding w'
      by (simp add: shrinks_def wf_world_def unregistered_def keys_of_def the_refs_def)
  qed
qed


lemma register_nested_returns:
  assumes H: "\<And>w name c. wf_world w \<Longrightarrow> c < next_addr w \<Longrightarrow> card (unregistered w) \<le> n \<Longrightarrow>
                get_schema_ref (heap w) (VObj c) \<in> unregistered w \<Longrightarrow>
                spec_definition n d w name (VObj c) \<noteq> None"
    and wf: "wf_world w" and b: "b < next_addr w" and card: "card (unregistered w) \<le> n"
  shows "register_nested (spec_definition n d) w b (get_schema_ref (heap w) (VObj b)) \<noteq> None"
proof -
  let ?k = "get_schema_ref (heap w) (VObj b)"
  obtain c w2 where bd: "before_definition w b ?k = (c, w2)"
    by (cases "before_definition w b ?k")
  note facts = before_definition_step [OF bd]
  note sh = before_definition_shrinks [OF bd wf b]
  show ?thesis
  proof (cases "\<exists>rs r. refs w = Some rs \<and> map_of rs ?k = None
      \<and> schema_name_resolver w = Some r \<and> name_truthy (r ?k)")
    case False
    then show ?thesis
      unfolding register_nested_unfold
      by (auto split: if_splits option.splits)
  next
    case True
    then obtain rs r where rs: "refs w = Some rs" "map_of rs ?k = None"
      and r: "schema_name_resolver w = Some r" "name_truthy (r ?k)"
      by blast
    from r(2) obtain v where v: "r ?k = Some v" "v \<noteq> []"
      by (cases "r ?k") simp_all
    have "?k \<notin> fst ` set (the_refs w2)"
      using facts(4) rs by (simp add: the_refs_def map_of_eq_None_iff)
    moreover have "get_schema_ref (heap w2) (VObj c) \<in> keys_of w2"
      using sh(2) by (auto simp: keys_of_def)
    ultimately have "get_schema_ref (heap w2) (VObj c) \<in> unregistered w2"
      using facts(3) by (simp add: unregistered_def)
    moreover have "card (unregistered w2) \<le> n"
      using sh(1) card card_mono [OF finite_unregistered, of "unregistered w2" w]
      by (simp add: shrinks_def)
    moreover have "wf_world w2" using sh(1) by (simp add: shrinks_def)
    ultimately have "spec_definition n d w2 v (VObj c) \<noteq> None"
      using H sh(2) by blast
    then show ?thesis
      using register_nested_calls [OF rs r(1) v get_schema_ref_truthy, of "spec_definition n d" b] bd
      by simp
  qed
qed

lemma inspect_fields_returns:
  assumes H: "\<And>w name c. wf_world w \<Longrightarrow> c < next_addr w \<Longrightarrow> card (unregistered w) \<le> n \<Longrightarrow>
                get_schema_ref (heap w) (VObj c) \<in> unregistered w \<Longrightarrow>
                spec_definition n d w name (VObj c) \<noteq> None"
  shows "wf_world w \<Longrightarrow> \<forall>b\<in>nested_addrs items. b < next_addr w \<Longrightarrow>
         card (unregistered w) \<le> n \<Longrightarrow> inspect_fields (spec_definition n d) w items \<noteq> None"
proof (induction items arbitrary: w)
  case Nil
  show ?case by simp
next
  case (Cons item rest)
  have b1: "\<forall>b\<in>nested_addrs [item]. b < next_addr w"
    and b2: "\<forall>b\<in>nested_addrs rest. b < next_addr w"
    using Cons.prems(2) by (simp_all add: nested_addrs_Cons [of item rest])
  have first: "inspect_field (spec_definition n d) w item \<noteq> None"
  proof (cases "snd item")
    case Plain
    then show ?thesis by (simp add: inspect_field_def)
  next
    case (Nested y)
    then have "y \<in> nested_addrs [item]"
      by (cases item) (auto simp: nested_addrs_def)
    with b1 have "y < next_addr w" by blast
    from register_nested_returns [OF H Cons.prems(1) this Cons.prems(3)] Nested
    show ?thesis by (simp add: inspect_field_def)
  next
    case (List_field container)
    then show ?thesis by (simp add: inspect_field_def)
  qed
  show ?case
  proof (cases "inspect_field (spec_definition n d) w item")
    case None
    with first show ?thesis by simp
  next
    case (Some res)
    show ?thesis
    proof (cases res)
      case (Inl e)
      with Some show ?thesis by simp
    next
      case (Inr w1)
      with Some have run: "inspect_field (spec_definition n d) w item = Some (Inr w1)" by simp
      from inspect_field_shrinks [OF spec_definition_shrinks Cons.prems(1) b1 run]
      have sh: "shrinks w w1" .
      then have "wf_world w1" and "\<forall>b\<in>nested_addrs rest. b < next_addr w1"
        using b2 by (auto simp: shrinks_def)
      moreover have "card (unregistered w1) \<le> n"
        using sh Cons.prems(3) card_mono [OF finite_unregistered, of "unregistered w1" w]
        by (simp add: shrinks_def)
      ultimately have "inspect_fields (spec_definition n d) w1 rest \<noteq> None"
        by (rule Cons.IH)
      with run show ?thesis by simp
    qed
  qed
qed

lemma helper_returns_if:
  assumes H: "\<And>w name c. wf_world w \<Longrightarrow> c < next_addr w \<Longrightarrow> card (unregistered w) \<le> n \<Longrightarrow>
                get_schema_ref (heap w) (VObj c) \<in> unregistered w \<Longrightarrow>
                spec_definition n d w name (VObj c) \<noteq> None"
    and wf: "wf_world w" and c: "c < next_addr w"
    and card: "card (unregistered w - {get_schema_ref (heap w) (VObj c)}) \<le> n"
  shows "schema_definition_helper (spec_definition n d) d w name (VObj c) \<noteq> None"
proof -
  let ?w3 = "after_conversion w name c"
  note s3 = after_conversion_shrinks [OF wf, of name c]
  have wf3: "wf_world ?w3" using s3(1) by (simp add: shrinks_def)
  have card3: "card (unregistered ?w3) \<le> n" using s3(2) card by simp
  obtain rs3 where refs3: "refs ?w3 = Some rs3" by (simp add: after_conversion_def)
  have addrs: "\<forall>b\<in>nested_addrs (obj_fields (heap ?w3 c)). b < next_addr ?w3"
    using wf3 c by (simp add: wf_world_def after_conversion_def)
  from inspect_fields_returns [OF H wf3 addrs card3]
  have "inspect_schema_for_auto_referencing (spec_definition n d) ?w3 c \<noteq> None"
    by (simp add: inspect_schema_for_auto_referencing_def Let_def refs3)
  then show ?thesis
    by (auto simp: helper_instance_unfold split: option.splits sum.splits)
qed

lemma helper_returns:
  "wf_world w \<Longrightarrow> c < next_addr w \<Longrightarrow>
   card (unregistered w - {get_schema_ref (heap w) (VObj c)}) \<le> n \<Longrightarrow>
   schema_definition_helper (spec_definition n d) d w name (VObj c) \<noteq> None"
proof (induction n arbitrary: w c name)
  case 0
  have "spec_definition 0 d w' name' (VObj c') \<noteq> None"
    if "card (unregistered w') \<le> 0" "get_schema_ref (heap w') (VObj c') \<in> unregistered w'"
    for w' name' c'
    using that finite_unregistered [of w'] by auto
  from helper_returns_if [of 0 d, OF this "0.prems"] show ?case by blast
next
  case (Suc n)
  have H: "spec_definition (Suc n) d w' name' (VObj c') \<noteq> None"
    if wf: "wf_world w'" and c': "c' < next_addr w'" and card: "card (unregistered w') \<le> Suc n"
      and mem: "get_schema_ref (heap w') (VObj c') \<in> unregistered w'"
    for w' name' c'
  proof -
    let ?w0 = "w'\<lparr>calls := calls w' @ [CallDefinition name' (VObj c')]\<rparr>"
    have eq: "unregistered ?w0 = unregistered w'" "wf_world ?w0 = wf_world w'"
      by (simp_all add: unregistered_def keys_of_def the_refs_def wf_world_def)
    have "card (unregistered w' - {get_schema_ref (heap w') (VObj c')}) \<le> n"
      using card mem finite_unregistered [of w'] by (simp add: card_Diff_singleton)
    then have "card (unregistered ?w0 - {get_schema_ref (heap ?w0) (VObj c')}) \<le> n"
      using eq(1) by simp
    moreover have "wf_world ?w0" "c' < next_addr ?w0" using wf c' eq(2) by simp_all
    ultimately have "schema_definition_helper (spec_definition n d) d ?w0 name' (VObj c') \<noteq> None"
      using Suc.IH by blast
    then show ?thesis
      by (auto split: option.splits sum.splits)
  qed
  from helper_returns_if [of "Suc n" d, OF H Suc.prems] show ?case by blast
qed


lemma spec_definition_returns:
  assumes "wf_world w" and "c < next_addr w" and "card (unregistered w) \<le> n"
    and "get_schema_ref (heap w) (VObj c) \<in> unregistered w"
  shows "spec_definition n d w name (VObj c) \<noteq> None"
proof (cases n)
  case 0
  with assms(3,4) finite_unregistered [of w] show ?thesis by auto
next
  case (Suc m)
  let ?w0 = "w\<lparr>calls := calls w @ [CallDefinition name (VObj c)]\<rparr>"
  have eq: "unregistered ?w0 = unregistered w" "wf_world ?w0 = wf_world w"
    by (simp_all add: unregistered_def keys_of_def the_refs_def wf_world_def)
  have "card (unregistered w - {get_schema_ref (heap w) (VObj c)}) \<le> m"
    using assms(3,4) Suc finite_unregistered [of w] by (simp add: card_Diff_singleton)
  then have "card (unregistered ?w0 - {get_schema_ref (heap ?w0) (VObj c)}) \<le> m"
    using eq(1) by simp
  moreover have "wf_world ?w0" "c < next_addr ?w0" using assms(1,2) eq(2) by simp_all
  ultimately have "schema_definition_helper (spec_definition m d) d ?w0 name (VObj c) \<noteq> None"
    by (intro helper_returns)
  then show ?thesis
    unfolding Suc by (auto split: option.splits sum.splits)
qed

lemma inspect_schema_returns:
  assumes wf: "wf_world w" and a: "a < next_addr w" and card: "card (unregistered w) \<le> n"
  shows "inspect_schema_for_auto_referencing (spec_definition n d) w a \<noteq> None"
proof -
  let ?w1 = "if refs w = None then w\<lparr>refs := Some []\<rparr> else w"
  have eq: "unregistered ?w1 = unregistered w" "wf_world ?w1 = wf_world w"
    by (simp_all add: unregistered_def keys_of_def the_refs_def wf_world_def)
  have addrs: "\<forall>b\<in>nested_addrs (obj_fields (heap ?w1 a)). b < next_addr ?w1"
    using wf a by (simp add: wf_world_def)
  have "inspect_fields (spec_definition n d) ?w1 (obj_fields (heap ?w1 a)) \<noteq> None"
    using wf card eq addrs
    by (intro inspect_fields_returns spec_definition_returns) simp_all
  then show ?thesis
    by (simp add: inspect_schema_for_auto_referencing_def Let_def)
qed

lemma card_unregistered: "card (unregistered w) \<le> next_addr w"
proof -
  have "card (unregistered w) \<le> card (keys_of w)"
    by (intro card_mono finite_keys_of) (simp add: unregistered_def)
  also have "\<dots> \<le> card {..<next_addr w}"
    unfolding keys_of_def by (rule card_image_le) simp
  finally show ?thesis by simp
qed

lemma wf_demo_heap:
  "heap w = demo_heap \<Longrightarrow> next_addr w = 20 \<Longrightarrow> wf_world w"
  by (auto simp: wf_world_def nested_addrs_def demo_heap_def plain_instance_def
      split: if_splits)

lemma register_nested_mono:
  assumes "defn_le f g" and "register_nested f w b k = Some r"
  shows "register_nested g w b k = Some r"
  using assms unfolding register_nested_unfold defn_le_def
  by (auto split: if_splits option.splits)

lemma inspect_field_mono:
  assumes "defn_le f g" and "inspect_field f w item = Some r"
  shows "inspect_field g w item = Some r"
  using assms register_nested_mono [OF assms(1)]
  by (auto simp: inspect_field_def split: mm_field.splits)

lemma inspect_fields_mono:
  assumes le: "defn_le f g"
  shows "inspect_fields f w items = Some r \<Longrightarrow> inspect_fields g w items = Some r"
proof (induction items arbitrary: w)
  case Nil
  then show ?case by simp
next
  case (Cons item rest)
  from Cons.prems obtain r1 where 1: "inspect_field f w item = Some r1"
    by (auto split: option.splits)
  from inspect_field_mono [OF le 1] have 2: "inspect_field g w item = Some r1" .
  show ?case
  proof (cases r1)
    case (Inl e)
    with Cons.prems 1 2 show ?thesis by auto
  next
    case (Inr w1)
    with Cons.prems 1 have "inspect_fields f w1 rest = Some r" by simp
    then have "inspect_fields g w1 rest = Some r" by (rule Cons.IH)
    with 2 Inr show ?thesis by simp
  qed
qed

lemma inspect_schema_mono:
  assumes "defn_le f g" and "inspect_schema_for_auto_referencing f w a = Some r"
  shows "inspect_schema_for_auto_referencing g w a = Some r"
  using assms(2) inspect_fields_mono [OF assms(1)]
  by (auto simp: inspect_schema_for_auto_referencing_def Let_def split: if_splits)

lemma helper_mono:
  assumes "defn_le f g" and "schema_definition_helper f d w name schema = Some r"
  shows "schema_definition_helper g d w name schema = Some r"
proof -
  obtain inst w1 where gi: "get_schema_instance d w schema = (inst, w1)"
    by (cases "get_schema_instance d w schema")
  show ?thesis
  proof (cases inst)
    case (VObj c)
    let ?w3 = "w1\<lparr>refs := Some (AList.update (get_schema_ref (heap w) schema) name (the_refs w1)),
                  calls := calls w1 @ [CallSchema2jsonschema (VObj c)]\<rparr>"
    show ?thesis
    proof (cases "schema_name_resolver w1 = None")
      case True
      with assms(2) gi VObj show ?thesis
        by (simp add: schema_definition_helper_def Let_def)
    next
      case False
      with assms(2) gi VObj obtain r1 where
        1: "inspect_schema_for_auto_referencing f ?w3 c = Some r1"
        by (auto simp: schema_definition_helper_def Let_def split: option.splits)
      from inspect_schema_mono [OF assms(1) 1]
      have "inspect_schema_for_auto_referencing g ?w3 c = Some r1" .
      with 1 assms(2) gi VObj False show ?thesis
        by (simp add: schema_definition_helper_def Let_def)
    qed
  qed (use assms(2) gi in \<open>simp_all add: schema_definition_helper_def Let_def\<close>)
qed

lemma spec_definition_mono: "defn_le (spec_definition n d) (spec_definition (Suc n) d)"
proof (induction n)
  case 0
  show ?case by (simp add: defn_le_def)
next
  case (Suc n)
  show ?case
    unfolding defn_le_def
  proof (intro allI impI)
    fix w name s r
    assume run: "spec_definition (Suc n) d w name s = Some r"
    let ?w0 = "w\<lparr>calls := calls w @ [CallDefinition name s]\<rparr>"
    from run obtain r1 where
      1: "schema_definition_helper (spec_definition n d) d ?w0 name s = Some r1"
      by (auto split: option.splits)
    from helper_mono [OF Suc.IH 1]
    have 2: "schema_definition_helper (spec_definition (Suc n) d) d ?w0 name s = Some r1" .
    have "spec_definition (Suc (Suc n)) d w name s =
          (case Some r1 of
             None \<Rightarrow> None
           | Some (Inl e) \<Rightarrow> Some (Inl e)
           | Some (Inr (w', json_schema)) \<Rightarrow>
               Some (Inr (w'\<lparr>definitions := AList.update name json_schema (definitions w')\<rparr>)))"
      using 2 by (simp only: spec_definition.simps)
    moreover have "spec_definition (Suc n) d w name s =
          (case Some r1 of
             None \<Rightarrow> None
           | Some (Inl e) \<Rightarrow> Some (Inl e)
           | Some (Inr (w', json_schema)) \<Rightarrow>
               Some (Inr (w'\<lparr>definitions := AList.update name json_schema (definitions w')\<rparr>)))"
      using 1 by (simp only: spec_definition.simps)
    ultimately show "spec_definition (Suc (Suc n)) d w name s = Some r"
      using run by simp
  qed
qed

lemma more_fuel:
  "schema_definition_helper (spec_definition n d) d w name schema = Some r \<Longrightarrow>
   schema_definition_helper (spec_definition (Suc n) d) d w name schema = Some r"
  by (rule helper_mono [OF spec_definition_mono])


section \<open>Discovery leaves the schema objects as they are\<close>

text \<open>
  Claim C10. In a well-formed world the discovery returns when the fuel is at least the
  number of objects. A completed discovery leaves every schema object that existed before
  it as it was, attribute by attribute, so a nested instance with \<^verbatim>\<open>many=True\<close> still
  has it afterwards. Every object that the discovery hands to \<open>spec.definition\<close> has
  \<open>many\<close> off, and where the nested instance had \<open>many\<close> on, the object registered is
  not that instance but a new object, made by the discovery.
\<close>

theorem discovery_does_not_mutate:
  "(wf_world w \<and> a < next_addr w \<and> next_addr w \<le> n \<longrightarrow>
      inspect_schema_for_auto_referencing (spec_definition n d) w a \<noteq> None)
   \<and> (\<forall>w'. inspect_schema_for_auto_referencing (spec_definition n d) w a = Some (Inr w') \<longrightarrow>
         (\<forall>b<next_addr w. heap w' b = heap w b)
         \<and> (\<exists>cs. calls w' = calls w @ cs
               \<and> (\<forall>name s. CallDefinition name s \<in> set cs \<longrightarrow>
                     (\<exists>c. s = VObj c \<and> \<not> many (heap w' c)
                          \<and> (many (heap w c) \<longrightarrow> next_addr w \<le> c)))))"
proof -
  have returns: "inspect_schema_for_auto_referencing (spec_definition n d) w a \<noteq> None"
    if "wf_world w \<and> a < next_addr w \<and> next_addr w \<le> n"
    using that card_unregistered [of w] by (intro inspect_schema_returns) simp_all
  have frame: "(\<forall>b<next_addr w. heap w' b = heap w b)
         \<and> (\<exists>cs. calls w' = calls w @ cs
               \<and> (\<forall>name s. CallDefinition name s \<in> set cs \<longrightarrow>
                     (\<exists>c. s = VObj c \<and> \<not> many (heap w' c)
                          \<and> (many (heap w c) \<longrightarrow> next_addr w \<le> c))))"
    if run: "inspect_schema_for_auto_referencing (spec_definition n d) w a = Some (Inr w')"
    for w'
  proof -
    from inspect_schema_step [OF spec_definition_ok run]
    have st: "discovery_step {} w w'" .
    then have F: "\<forall>b<next_addr w. heap w' b = heap w b"
      by (simp add: discovery_step_def)
    from st obtain cs where cs: "calls w' = calls w @ cs"
      "\<forall>name s. CallDefinition name s \<in> set cs \<longrightarrow> (\<exists>c. s = VObj c \<and> \<not> many (heap w' c))"
      unfolding discovery_step_def by blast
    have "\<forall>name s. CallDefinition name s \<in> set cs \<longrightarrow>
            (\<exists>c. s = VObj c \<and> \<not> many (heap w' c) \<and> (many (heap w c) \<longrightarrow> next_addr w \<le> c))"
    proof (intro allI impI)
      fix name s
      assume "CallDefinition name s \<in> set cs"
      with cs(2) obtain c where c: "s = VObj c" "\<not> many (heap w' c)" by blast
      have "many (heap w c) \<longrightarrow> next_addr w \<le> c"
      proof
        assume m: "many (heap w c)"
        show "next_addr w \<le> c"
        proof (rule ccontr)
          assume "\<not> next_addr w \<le> c"
          then have "heap w' c = heap w c" using F by simp
          with m c(2) show False by simp
        qed
      qed
      with c show "\<exists>c. s = VObj c \<and> \<not> many (heap w' c) \<and> (many (heap w c) \<longrightarrow> next_addr w \<le> c)"
        by blast
    qed
    with F cs(1) show ?thesis by blast
  qed
  from returns frame show ?thesis by blast
qed

text \<open>In the example, the instance of \<open>BSchema\<close> at address 11 has \<open>many\<close> on: it is
  left as it is, and what is registered is its copy at address 20, with \<open>many\<close> off.\<close>

lemma chain_inspect_run20:
  "inspect_schema_for_auto_referencing (spec_definition 20 demo_deps)
     (after_conversion chain_world ''A'' 10) 10 = Some (Inr chain_registered)"
  by (simp add: demo_simps after_conversion_def chain_registered_def Let_def eval_nat_numeral)

theorem discovery_does_not_mutate_witness:
  "wf_world (after_conversion chain_world ''A'' 10)
   \<and> inspect_schema_for_auto_referencing (spec_definition 20 demo_deps)
     (after_conversion chain_world ''A'' 10) 10 = Some (Inr chain_registered)
   \<and> many (heap (after_conversion chain_world ''A'' 10) 11)
   \<and> heap chain_registered 11 = heap (after_conversion chain_world ''A'' 10) 11
   \<and> many (heap chain_registered 11)
   \<and> CallDefinition ''AutoBSchema'' (VObj 20) \<in> set (calls chain_registered)
   \<and> heap chain_registered 20 = (heap chain_registered 11)\<lparr>many := False\<rparr>"
proof -
  let ?w = "after_conversion chain_world ''A'' 10"
  have wf: "wf_world ?w"
    by (rule wf_demo_heap) (simp_all add: after_conversion_def chain_world_def demo_world_def)
  have n: "(10::nat) < next_addr ?w" "next_addr ?w \<le> 20"
    by (simp_all add: after_conversion_def chain_world_def demo_world_def)
  note inst = discovery_does_not_mutate [of ?w 10 20 demo_deps]
  from inst wf n have "inspect_schema_for_auto_referencing (spec_definition 20 demo_deps) ?w 10 \<noteq> None"
    by blast
  from inst chain_inspect_run20
  have "\<forall>b<next_addr ?w. heap chain_registered b = heap ?w b"
    by blast
  moreover have "(11::nat) < next_addr ?w"
    by (simp add: after_conversion_def chain_world_def demo_world_def)
  ultimately have "heap chain_registered 11 = heap ?w 11"
    by blast
  moreover have "many (heap ?w 11)"
    by (simp add: after_conversion_def chain_world_def demo_world_def demo_heap_def)
  moreover have "CallDefinition ''AutoBSchema'' (VObj 20) \<in> set (calls chain_registered)"
    "heap chain_registered 20 = (heap chain_registered 11)\<lparr>many := False\<rparr>"
    by (simp_all add: chain_registered_def)
  ultimately show ?thesis
    using chain_inspect_run20 wf by simp
qed

section \<open>Registering a key twice: what the helper does\<close>

text \<open>
  Claim C1, amended: a call of the definition helper for an instance, whether or not the
  key of the instance is registered already, returns in a well-formed world when the fuel
  is at least the number of objects; when it returns without an error it has called the
  converter for this instance and this name and returns that descriptor, and it leaves the
  key bound to the name of this call; the registry has one entry for the key, not two.
  When a naming policy is configured the call runs the discovery on the instance, from
  the state in which the key is bound and the conversion recorded, and the state it
  returns is the state that this discovery returns; without a naming policy it returns
  that state itself.
\<close>

theorem registration_rebinds_and_converts:
  "(wf_world w \<and> c < next_addr w \<and> next_addr w \<le> n \<longrightarrow>
      schema_definition_helper (spec_definition n d) d w name (VObj c) \<noteq> None)
   \<and> (\<forall>w' js. schema_definition_helper (spec_definition n d) d w name (VObj c)
                 = Some (Inr (w', js)) \<longrightarrow>
         js = schema2jsonschema d (bound_world w name c) (VObj c) None (Some name)
         \<and> (\<exists>cs. calls w' = calls w @ CallSchema2jsonschema (VObj c) # cs)
         \<and> map_of (the_refs w') (get_schema_ref (heap w) (VObj c)) = Some name
         \<and> (distinct (map fst (the_refs w)) \<longrightarrow>
              length (filter (\<lambda>kv. fst kv = get_schema_ref (heap w) (VObj c)) (the_refs w')) = 1)
         \<and> (schema_name_resolver w \<noteq> None \<longrightarrow>
              inspect_schema_for_auto_referencing (spec_definition n d)
                (after_conversion w name c) c = Some (Inr w'))
         \<and> (schema_name_resolver w = None \<longrightarrow> w' = after_conversion w name c))"
proof -
  have returns: "schema_definition_helper (spec_definition n d) d w name (VObj c) \<noteq> None"
    if a: "wf_world w \<and> c < next_addr w \<and> next_addr w \<le> n"
  proof -
    have "card (unregistered w - {get_schema_ref (heap w) (VObj c)}) \<le> card (unregistered w)"
      by (intro card_mono finite_unregistered) blast
    with a card_unregistered [of w] show ?thesis
      by (intro helper_returns) simp_all
  qed
  have result: "js = schema2jsonschema d (bound_world w name c) (VObj c) None (Some name)
         \<and> (\<exists>cs. calls w' = calls w @ CallSchema2jsonschema (VObj c) # cs)
         \<and> map_of (the_refs w') (get_schema_ref (heap w) (VObj c)) = Some name
         \<and> (distinct (map fst (the_refs w)) \<longrightarrow>
              length (filter (\<lambda>kv. fst kv = get_schema_ref (heap w) (VObj c)) (the_refs w')) = 1)"
    if run: "schema_definition_helper (spec_definition n d) d w name (VObj c) = Some (Inr (w', js))"
    for w' js
  proof -
    note h = helper_instance_step [OF spec_definition_ok run]
    have "distinct (map fst (the_refs w)) \<longrightarrow> distinct (map fst (the_refs w'))"
      using h(1) by (simp add: discovery_step_def)
    then have "distinct (map fst (the_refs w)) \<longrightarrow>
        length (filter (\<lambda>kv. fst kv = get_schema_ref (heap w) (VObj c)) (the_refs w')) = 1"
      using count_key [of "the_refs w'" "get_schema_ref (heap w) (VObj c)" name] h(2) by blast
    with h(2,3,4) show ?thesis by blast
  qed
  have discovery: "inspect_schema_for_auto_referencing (spec_definition n d)
                (after_conversion w name c) c = Some (Inr w')"
    if run: "schema_definition_helper (spec_definition n d) d w name (VObj c) = Some (Inr (w', js))"
      and policy: "schema_name_resolver w \<noteq> None"
    for w' js
    using run policy
    by (auto simp: helper_instance_unfold split: option.splits sum.splits)
  have no_discovery: "w' = after_conversion w name c"
    if run: "schema_definition_helper (spec_definition n d) d w name (VObj c) = Some (Inr (w', js))"
      and policy: "schema_name_resolver w = None"
    for w' js
    using run policy by (simp add: helper_instance_unfold)
  from returns result discovery no_discovery show ?thesis by blast
qed

text \<open>
  In the example the policy declines \<open>BSchema\<close>. The first registration of the instance
  of \<open>ASchema\<close> gives \<open>asked_once_world\<close>; the second, under another name, converts
  again and runs the discovery again, which asks the policy for \<open>BSchema\<close> a second
  time and makes a second copy of the instance at address 11.
\<close>

lemma wf_asked_once: "wf_world asked_once_world"
  by (auto simp: wf_world_def nested_addrs_def asked_once_world_def demo_heap_def
      plain_instance_def split: if_splits)

lemma asked_first_run:
  "schema_definition_helper (spec_definition 20 demo_deps) demo_deps asking_world ''A'' (VObj 10)
     = Some (Inr (asked_once_world, object_descriptor))"
  by (simp add: demo_simps asking_world_def asked_once_world_def name_none_def Let_def)

lemma asked_second_run:
  "schema_definition_helper (spec_definition 21 demo_deps) demo_deps asked_once_world ''A2''
     (VObj 10) = Some (Inr (asked_twice_world, object_descriptor))"
  by (simp add: demo_simps asked_once_world_def asked_twice_world_def name_none_def Let_def)

theorem registration_rebinds_and_converts_witness:
  "schema_definition_helper (spec_definition 20 demo_deps) demo_deps asking_world ''A'' (VObj 10)
     = Some (Inr (asked_once_world, object_descriptor))
   \<and> wf_world asked_once_world
   \<and> schema_name_resolver asked_once_world = Some name_none
   \<and> map_of (the_refs asked_once_world) (get_schema_ref (heap asked_once_world) (VObj 10))
       = Some ''A''
   \<and> schema_definition_helper (spec_definition 21 demo_deps) demo_deps asked_once_world ''A2''
       (VObj 10) = Some (Inr (asked_twice_world, object_descriptor))
   \<and> object_descriptor =
       schema2jsonschema demo_deps (bound_world asked_once_world ''A2'' 10) (VObj 10) None
         (Some ''A2'')
   \<and> the_refs asked_twice_world = [(KClass ASchema, ''A2'')]
   \<and> inspect_schema_for_auto_referencing (spec_definition 21 demo_deps)
        (after_conversion asked_once_world ''A2'' 10) 10 = Some (Inr asked_twice_world)
   \<and> calls asked_twice_world =
       calls asked_once_world @ [CallSchema2jsonschema (VObj 10), CallResolver (KClass BSchema)]
   \<and> asked_twice_world \<noteq> after_conversion asked_once_world ''A2'' 10"
proof -
  have n: "(10::nat) < next_addr asked_once_world" "next_addr asked_once_world \<le> 21"
    by (simp_all add: asked_once_world_def)
  have policy: "schema_name_resolver asked_once_world \<noteq> None"
    "schema_name_resolver asked_once_world = Some name_none"
    by (simp_all add: asked_once_world_def)
  have dist: "distinct (map fst (the_refs asked_once_world))"
    by (simp add: asked_once_world_def the_refs_def)
  note inst = registration_rebinds_and_converts
    [of asked_once_world 10 21 demo_deps "''A2''"]
  from inst wf_asked_once n
  have "schema_definition_helper (spec_definition 21 demo_deps) demo_deps asked_once_world ''A2''
      (VObj 10) \<noteq> None"
    by blast
  from inst asked_second_run
  have js: "object_descriptor =
       schema2jsonschema demo_deps (bound_world asked_once_world ''A2'' 10) (VObj 10) None
         (Some ''A2'')"
    by blast
  from inst asked_second_run policy(1)
  have disc: "inspect_schema_for_auto_referencing (spec_definition 21 demo_deps)
        (after_conversion asked_once_world ''A2'' 10) 10 = Some (Inr asked_twice_world)"
    by blast
  from inst asked_second_run dist
  have "length (filter (\<lambda>kv. fst kv = get_schema_ref (heap asked_once_world) (VObj 10))
          (the_refs asked_twice_world)) = 1"
    by blast
  have before: "map_of (the_refs asked_once_world)
      (get_schema_ref (heap asked_once_world) (VObj 10)) = Some ''A''"
    by (simp add: demo_simps asked_once_world_def)
  have after: "the_refs asked_twice_world = [(KClass ASchema, ''A2'')]"
    "calls asked_twice_world =
       calls asked_once_world @ [CallSchema2jsonschema (VObj 10), CallResolver (KClass BSchema)]"
    by (simp_all add: asked_once_world_def asked_twice_world_def the_refs_def)
  have "next_addr asked_twice_world \<noteq> next_addr (after_conversion asked_once_world ''A2'' 10)"
    by (simp add: asked_once_world_def asked_twice_world_def after_conversion_def)
  then have differs: "asked_twice_world \<noteq> after_conversion asked_once_world ''A2'' 10"
    by auto
  from asked_first_run wf_asked_once policy(2) before asked_second_run js after disc differs
  show ?thesis by simp
qed

end
